theory Spec2Isabelle
  imports Main "HOL-Library.Word"
begin

section \<open>Data model\<close>

text \<open>
  The program talks to two collaborators: an IMAP connection (go-imap's client) and the
  Gmail service. Neither is part of the program, so both are an environment that answers
  every call. A run is recorded as the list of calls made, each with the answer it got.
  Calls to \<open>log.Printf\<close> carry no control flow and are left out, and so is the
  deferred \<open>fetch.Close()\<close>, which follows \<open>fetch.Collect()\<close>.
\<close>

type_synonym byte = "8 word"

text \<open>
  Go's \<open>error\<close>: either an error handed back by a collaborator, or the one built in
  main.go by \<open>fmt.Errorf("gmail returned status code: %v", r.HTTPStatusCode)\<close>.
  A nil error is \<open>None\<close> of \<open>error option\<close>.
\<close>

datatype error = External string | GmailStatusCode int

text \<open>\<open>time.Duration\<close> counts nanoseconds.\<close>

type_synonym Duration = int

definition Minute :: Duration where
  "Minute = 60 * 1000000000"

definition maxPollTime :: Duration where
  "maxPollTime = 5 * Minute"

text \<open>
  What \<open>doSession\<close> gets of an account: main.go decodes it from the configuration
  file, the earlier revision takes it from command-line flags (and calls the fields
  \<open>tlsAddress\<close>, \<open>username\<close>, \<open>password\<close>). In neither is there a field for
  the \<open>Folders\<close> member of the configuration.
\<close>

record imapCredentials =
  Address :: string
  Username :: string
  Password :: string

text \<open>Of the result of SELECT the program reads \<open>NumMessages\<close> (a uint32) only.\<close>

record SelectData =
  NumMessages :: "32 word"

text \<open>
  One fetched message as go-imap buffers it. \<open>BodySection\<close> lists the section contents
  in the order in which the \<open>range\<close> statement of \<open>fetchFirstMessage\<close> visits them.
\<close>

record FetchMessageBuffer =
  UID :: "32 word"
  BodySection :: "byte list list"

record message =
  uid :: "32 word"
  contents :: "byte list"

text \<open>The payload of an unsolicited mailbox update; the program never reads it.\<close>

type_synonym UnilateralDataMailbox = "32 word option"

datatype NumSet = SeqSet "32 word list" | UIDSet "32 word list"

definition SeqSetNum :: "32 word \<Rightarrow> NumSet" where
  "SeqSetNum n = SeqSet [n]"

definition UIDSetNum :: "32 word \<Rightarrow> NumSet" where
  "UIDSetNum u = UIDSet [u]"

record FetchItemBodySection =
  Specifier :: string
  Part :: "int list"
  Peek :: bool

text \<open>\<open>[]*imap.FetchItemBodySection{{}}\<close>: one section item, all fields zero.\<close>

definition entireMessage :: "FetchItemBodySection list" where
  "entireMessage = [\<lparr>Specifier = [], Part = [], Peek = False\<rparr>]"

datatype StoreFlagsOp = StoreFlagsSet | StoreFlagsAdd | StoreFlagsDel

definition FlagDeleted :: string where
  "FlagDeleted = CHR 0x5C # ''Deleted''"

record StoreFlags =
  Op :: StoreFlagsOp
  Silent :: bool
  Flags :: "string list"

definition addDeleted :: StoreFlags where
  "addDeleted = \<lparr>Op = StoreFlagsAdd, Silent = True, Flags = [FlagDeleted]\<rparr>"

text \<open>The request built by the call chain of \<open>importToGmail\<close>.\<close>

record ImportCall =
  userId :: string
  LabelIds :: "string list"
  InternalDateSource :: string
  NeverMarkSpam :: bool
  ProcessForCalendar :: bool
  Deleted :: bool
  Media :: "byte list"
  ContentType :: string

definition importCall :: "byte list \<Rightarrow> ImportCall" where
  "importCall bs =
     \<lparr>userId = ''me'', LabelIds = [''INBOX'', ''UNREAD''],
      InternalDateSource = ''dateHeader'', NeverMarkSpam = False,
      ProcessForCalendar = True, Deleted = False,
      Media = bs, ContentType = ''message/rfc822''\<rparr>"

text \<open>
  The calls of a session, each with its answer. \<open>Await d w\<close> is the \<open>select\<close> of
  \<open>doIdle\<close> on the update channel and a timer of duration \<open>d\<close>: \<open>w = Some u\<close> when the
  update \<open>u\<close> was received, \<open>None\<close> when the timer fired. \<open>Close\<close> is the deferred
  \<open>client.Close()\<close>.
\<close>

datatype event =
    DialTLS string "error option"
  | Login string string "error option"
  | Select string "error + SelectData"
  | Fetch NumSet "FetchItemBodySection list" "error + FetchMessageBuffer list"
  | Import ImportCall "error + int"
  | Store NumSet StoreFlags "error option"
  | Expunge "error option"
  | Idle "error option"
  | Await Duration "UnilateralDataMailbox option"
  | IdleClose "error option"
  | IdleWait "error option"
  | Close

text \<open>
  The environment: what each kind of call answers when it is the \<open>k\<close>-th call of the
  session, and which unsolicited mailbox updates the server pushes while the \<open>k\<close>-th call
  is in progress. Any behaviour of server and destination on one run is such a family.
\<close>

record env =
  dial_r :: "nat \<Rightarrow> error option"
  login_r :: "nat \<Rightarrow> error option"
  select_r :: "nat \<Rightarrow> error + SelectData"
  fetch_r :: "nat \<Rightarrow> error + FetchMessageBuffer list"
  import_r :: "nat \<Rightarrow> error + int"
  store_r :: "nat \<Rightarrow> error option"
  expunge_r :: "nat \<Rightarrow> error option"
  idle_r :: "nat \<Rightarrow> error option"
  idleClose_r :: "nat \<Rightarrow> error option"
  idleWait_r :: "nat \<Rightarrow> error option"
  pushes :: "nat \<Rightarrow> UnilateralDataMailbox list"

section \<open>The update channel\<close>

text \<open>
  A Go channel of capacity \<open>cap\<close> holding the values \<open>buf\<close>. \<open>make(chan T)\<close> has
  capacity 0.
\<close>

record 'a chan =
  cap :: nat
  buf :: "'a list"

definition make_chan :: "nat \<Rightarrow> 'a chan" where
  "make_chan n = \<lparr>cap = n, buf = []\<rparr>"

datatype send_result = Delivered | Buffered | Dropped

text \<open>
  The \<open>Mailbox\<close> callback of \<open>dataHandler\<close>:
  \<^verbatim>\<open>select { case mailboxUpdate <- data: default: }\<close>.
  The send case is taken when a receiver is parked on the channel (\<open>parked\<close>) or the
  buffer has room; otherwise \<open>default\<close> is taken and the value is gone.
\<close>

definition dataHandler_Mailbox ::
    "bool \<Rightarrow> 'a chan \<Rightarrow> 'a \<Rightarrow> send_result \<times> 'a chan" where
  "dataHandler_Mailbox parked ch data =
     (if parked then (Delivered, ch)
      else if length (buf ch) < cap ch then (Buffered, ch\<lparr>buf := buf ch @ [data]\<rparr>)
      else (Dropped, ch))"

text \<open>Updates pushed while the session is not waiting in the \<open>select\<close> of \<open>doIdle\<close>.\<close>

definition deliver :: "'a chan \<Rightarrow> 'a list \<Rightarrow> 'a chan" where
  "deliver ch ps = foldl (\<lambda>c p. snd (dataHandler_Mailbox False c p)) ch ps"

text \<open>
  The \<open>select\<close> of \<open>doIdle\<close>:
  \<^verbatim>\<open>select { case <-mailboxUpdate: timer.Stop(); case <-timer.C: }\<close>
  with \<open>ps\<close> the updates pushed before the timer fires. A buffered value is received at
  once; otherwise the session parks, and the first callback hands its value over; with
  no callback the timer fires.
\<close>

definition idleSelect :: "'a chan \<Rightarrow> 'a list \<Rightarrow> 'a option \<times> 'a chan" where
  "idleSelect ch ps =
     (case buf ch of
        v # vs \<Rightarrow> (Some v, deliver (ch\<lparr>buf := vs\<rparr>) ps)
      | [] \<Rightarrow>
         (case ps of
            [] \<Rightarrow> (None, ch)
          | p # ps' \<Rightarrow> (Some p, deliver (snd (dataHandler_Mailbox True ch p)) ps')))"

section \<open>The session\<close>

text \<open>
  The repository holds two revisions of the program: main.go, and an earlier one
  (\<^verbatim>\<open>src/unnamed/part_000\<close>) that differs in \<open>importToGmail\<close>.
\<close>

datatype revision = MainGo | Part000

record session =
  trace :: "event list"
  mailboxUpdate :: "UnilateralDataMailbox chan"

text \<open>One blocking call: it is recorded, and the updates pushed meanwhile are handled.\<close>

definition issue :: "env \<Rightarrow> session \<Rightarrow> event \<Rightarrow> session" where
  "issue e s ev =
     \<lparr>trace = trace s @ [ev],
      mailboxUpdate = deliver (mailboxUpdate s) (pushes e (length (trace s)))\<rparr>"

definition fetchFirstMessage :: "env \<Rightarrow> session \<Rightarrow> (error + message option) \<times> session" where
  "fetchFirstMessage e s =
     (let r = fetch_r e (length (trace s));
          s' = issue e s (Fetch (SeqSetNum 1) entireMessage r)
      in case r of
           Inl err \<Rightarrow> (Inl err, s')
         | Inr [] \<Rightarrow> (Inr None, s')
         | Inr (msg # _) \<Rightarrow>
             (Inr (Some \<lparr>uid = UID msg, contents = concat (BodySection msg)\<rparr>), s'))"

definition importToGmail ::
    "revision \<Rightarrow> env \<Rightarrow> session \<Rightarrow> message \<Rightarrow> error option \<times> session" where
  "importToGmail rv e s m =
     (let r = import_r e (length (trace s));
          s' = issue e s (Import (importCall (contents m)) r)
      in case r of
           Inl err \<Rightarrow> (Some err, s')
         | Inr code \<Rightarrow>
             (case rv of
                MainGo \<Rightarrow>
                  if code \<noteq> 200 then (Some (GmailStatusCode code), s') else (None, s')
              | Part000 \<Rightarrow> (None, s')))"

definition deleteMessage :: "env \<Rightarrow> session \<Rightarrow> 32 word \<Rightarrow> error option \<times> session" where
  "deleteMessage e s u =
     (let r1 = store_r e (length (trace s));
          s1 = issue e s (Store (UIDSetNum u) addDeleted r1)
      in case r1 of
           Some err \<Rightarrow> (Some err, s1)
         | None \<Rightarrow>
             (let r2 = expunge_r e (length (trace s1));
                  s2 = issue e s1 (Expunge r2)
              in case r2 of
                   Some err \<Rightarrow> (Some err, s2)
                 | None \<Rightarrow> (None, s2)))"

definition doIdle :: "env \<Rightarrow> session \<Rightarrow> Duration \<Rightarrow> error option \<times> session" where
  "doIdle e s deadline =
     (let r = idle_r e (length (trace s));
          s1 = issue e s (Idle r)
      in case r of
           Some err \<Rightarrow> (Some err, s1)
         | None \<Rightarrow>
             (let (w, ch) = idleSelect (mailboxUpdate s1) (pushes e (length (trace s1)));
                  s2 = \<lparr>trace = trace s1 @ [Await deadline w], mailboxUpdate = ch\<rparr>;
                  r3 = idleClose_r e (length (trace s2));
                  s3 = issue e s2 (IdleClose r3)
              in case r3 of
                   Some err \<Rightarrow> (Some err, s3)
                 | None \<Rightarrow>
                     (let r4 = idleWait_r e (length (trace s3));
                          s4 = issue e s3 (IdleWait r4)
                      in case r4 of
                           Some err \<Rightarrow> (Some err, s4)
                         | None \<Rightarrow> (None, s4))))"

text \<open>
  How one of the two \<open>for\<close> loops of \<open>doSession\<close> is left: by \<open>break\<close>, by
  \<open>return err\<close>, or not within the given number of iterations.
\<close>

datatype loop_exit = Break | Return error | Spinning

text \<open>The inner loop of \<open>doSession\<close>; the first argument bounds its iterations.\<close>

fun drainLoop :: "nat \<Rightarrow> revision \<Rightarrow> env \<Rightarrow> session \<Rightarrow> loop_exit \<times> session" where
  "drainLoop 0 rv e s = (Spinning, s)"
| "drainLoop (Suc n) rv e s =
     (let r = select_r e (length (trace s));
          s1 = issue e s (Select ''INBOX'' r)
      in case r of
           Inl err \<Rightarrow> (Return err, s1)
         | Inr inbox \<Rightarrow>
             if NumMessages inbox \<le> 0 then (Break, s1)
             else
               (case fetchFirstMessage e s1 of
                  (Inl err, s2) \<Rightarrow> (Return err, s2)
                | (Inr None, s2) \<Rightarrow> (Break, s2)
                | (Inr (Some msg), s2) \<Rightarrow>
                    (case importToGmail rv e s2 msg of
                       (Some err, s3) \<Rightarrow> (Return err, s3)
                     | (None, s3) \<Rightarrow>
                         (case deleteMessage e s3 (uid msg) of
                            (Some err, s4) \<Rightarrow> (Return err, s4)
                          | (None, s4) \<Rightarrow> drainLoop n rv e s4))))"

text \<open>
  The outer loop of \<open>doSession\<close>: \<open>None\<close> when it has not returned within the given
  number of rounds, \<open>Some err\<close> for \<open>return err\<close>.
\<close>

fun sessionLoop :: "nat \<Rightarrow> revision \<Rightarrow> env \<Rightarrow> session \<Rightarrow> error option \<times> session" where
  "sessionLoop 0 rv e s = (None, s)"
| "sessionLoop (Suc n) rv e s =
     (case drainLoop (Suc n) rv e s of
        (Spinning, s1) \<Rightarrow> (None, s1)
      | (Return err, s1) \<Rightarrow> (Some err, s1)
      | (Break, s1) \<Rightarrow>
          (case doIdle e s1 maxPollTime of
             (Some err, s2) \<Rightarrow> (Some err, s2)
           | (None, s2) \<Rightarrow> sessionLoop n rv e s2))"

text \<open>
  \<open>doSession\<close>. The result is \<open>None\<close> while the session is still running after \<open>fuel\<close>
  rounds, and \<open>Some r\<close> when it has returned the Go error \<open>r\<close> (\<open>Some None\<close> would be a
  nil error). Once the connection is open, every return runs the deferred
  \<open>client.Close()\<close>.
\<close>

definition doSession ::
    "revision \<Rightarrow> imapCredentials \<Rightarrow> env \<Rightarrow> nat \<Rightarrow> error option option \<times> session" where
  "doSession rv imap e fuel =
     (let s0 = \<lparr>trace = [], mailboxUpdate = make_chan 0\<rparr>;
          r = dial_r e (length (trace s0));
          s1 = issue e s0 (DialTLS (Address imap) r)
      in case r of
           Some err \<Rightarrow> (Some (Some err), s1)
         | None \<Rightarrow>
             (let r2 = login_r e (length (trace s1));
                  s2 = issue e s1 (Login (Username imap) (Password imap) r2)
              in case r2 of
                   Some err \<Rightarrow> (Some (Some err), issue e s2 Close)
                 | None \<Rightarrow>
                     (case sessionLoop fuel rv e s2 of
                        (Some err, s3) \<Rightarrow> (Some (Some err), issue e s3 Close)
                      | (None, s3) \<Rightarrow> (None, s3))))"

section \<open>The supervisor\<close>

text \<open>
  The loop that \<open>main\<close> runs for an account:
  \<^verbatim>\<open>for { doSession(...); time.Sleep(maxPollTime) }\<close>.
  The \<open>i\<close>-th session meets the environment \<open>envs i\<close>. The last argument bounds the
  number of sessions looked at; a session that has not returned ends the list.
\<close>

datatype supervisor_event = RunSession imapCredentials "event list" | Sleep Duration

fun supervise ::
    "revision \<Rightarrow> imapCredentials \<Rightarrow> (nat \<Rightarrow> env) \<Rightarrow> nat \<Rightarrow> nat \<Rightarrow> nat \<Rightarrow> supervisor_event list"
where
  "supervise rv imap envs fuel i 0 = []"
| "supervise rv imap envs fuel i (Suc k) =
     (case doSession rv imap (envs i) fuel of
        (None, s) \<Rightarrow> [RunSession imap (trace s)]
      | (Some r, s) \<Rightarrow>
          RunSession imap (trace s) # Sleep maxPollTime # supervise rv imap envs fuel (Suc i) k)"

section \<open>Runs\<close>

text \<open>The calls a session has made after \<open>fuel\<close> rounds, and what it has returned.\<close>

definition session_trace :: "revision \<Rightarrow> imapCredentials \<Rightarrow> env \<Rightarrow> nat \<Rightarrow> event list" where
  "session_trace rv c e fuel = trace (snd (doSession rv c e fuel))"

definition session_result ::
    "revision \<Rightarrow> imapCredentials \<Rightarrow> env \<Rightarrow> nat \<Rightarrow> error option option" where
  "session_result rv c e fuel = fst (doSession rv c e fuel)"

subsection \<open>Example environments\<close>

definition account :: imapCredentials where
  "account = \<lparr>Address = ''imap.example.org:993'', Username = ''alice'', Password = ''secret''\<rparr>"

definition msg12 :: FetchMessageBuffer where
  "msg12 = \<lparr>UID = 12, BodySection = [[0x48, 0x69], [0x21]]\<rparr>"

text \<open>Every call succeeds, the mailbox is empty, the server pushes nothing.\<close>

definition calm :: env where
  "calm = \<lparr>dial_r = (\<lambda>k. None), login_r = (\<lambda>k. None),
     select_r = (\<lambda>k. Inr \<lparr>NumMessages = 0\<rparr>), fetch_r = (\<lambda>k. Inr []),
     import_r = (\<lambda>k. Inr 200), store_r = (\<lambda>k. None), expunge_r = (\<lambda>k. None),
     idle_r = (\<lambda>k. None), idleClose_r = (\<lambda>k. None), idleWait_r = (\<lambda>k. None),
     pushes = (\<lambda>k. [])\<rparr>"

text \<open>
  The mailbox holds one message, UID 12; the destination answers the import with
  \<open>answer\<close>; the connection breaks during the first idle wait.
\<close>

definition one_message :: "(error + int) \<Rightarrow> env" where
  "one_message answer =
     calm\<lparr>select_r := (\<lambda>k. Inr \<lparr>NumMessages = (if k = 2 then 1 else 0)\<rparr>),
          fetch_r := (\<lambda>k. Inr [msg12]), import_r := (\<lambda>k. answer),
          idleWait_r := (\<lambda>k. Some (External ''EOF''))\<rparr>"

definition unreachable :: env where
  "unreachable = calm\<lparr>dial_r := (\<lambda>k. Some (External ''connection refused''))\<rparr>"

text \<open>SELECT reports a message, FETCH finds none.\<close>

definition racing :: env where
  "racing = calm\<lparr>select_r := (\<lambda>k. Inr \<lparr>NumMessages = 1\<rparr>)\<rparr>"

text \<open>One update is pushed during the SELECT (call 2), none during the wait (call 4).\<close>

definition late_update :: env where
  "late_update = calm\<lparr>pushes := (\<lambda>k. if k = 2 then [Some 1] else [])\<rparr>"

text \<open>Two updates are pushed during the wait (call 4).\<close>

definition prompt_update :: env where
  "prompt_update = calm\<lparr>pushes := (\<lambda>k. if k = 4 then [Some 7, Some 8] else [])\<rparr>"

text \<open>The run of main.go on \<open>one_message (Inr 200)\<close>.\<close>

definition delivered_trace :: "event list" where
  "delivered_trace =
     [DialTLS ''imap.example.org:993'' None,
      Login ''alice'' ''secret'' None,
      Select ''INBOX'' (Inr \<lparr>NumMessages = 1\<rparr>),
      Fetch (SeqSetNum 1) entireMessage (Inr [msg12]),
      Import (importCall [0x48, 0x69, 0x21]) (Inr 200),
      Store (UIDSetNum 12) addDeleted None,
      Expunge None,
      Select ''INBOX'' (Inr \<lparr>NumMessages = 0\<rparr>),
      Idle None,
      Await maxPollTime None,
      IdleClose None,
      IdleWait (Some (External ''EOF'')),
      Close]"

section \<open>The protocol of a session\<close>

text \<open>
  The error with which the session returns right after a call, if any: the
  \<open>if err != nil { return err }\<close> that follows each call in the source.
\<close>

fun failure_of :: "revision \<Rightarrow> event \<Rightarrow> error option" where
  "failure_of rv (DialTLS a r) = r"
| "failure_of rv (Login u p r) = r"
| "failure_of rv (Select n r) = (case r of Inl err \<Rightarrow> Some err | Inr _ \<Rightarrow> None)"
| "failure_of rv (Fetch ns fo r) = (case r of Inl err \<Rightarrow> Some err | Inr _ \<Rightarrow> None)"
| "failure_of rv (Import c r) =
     (case r of
        Inl err \<Rightarrow> Some err
      | Inr code \<Rightarrow>
          (case rv of
             MainGo \<Rightarrow> if code \<noteq> 200 then Some (GmailStatusCode code) else None
           | Part000 \<Rightarrow> None))"
| "failure_of rv (Store ns fl r) = r"
| "failure_of rv (Expunge r) = r"
| "failure_of rv (Idle r) = r"
| "failure_of rv (Await d w) = None"
| "failure_of rv (IdleClose r) = r"
| "failure_of rv (IdleWait r) = r"
| "failure_of rv Close = None"

text \<open>The calls after which the inner loop starts an iteration.\<close>

fun loop_head :: "event \<Rightarrow> bool" where
  "loop_head (Login u p r) = (r = None)"
| "loop_head (Expunge r) = (r = None)"
| "loop_head (IdleWait r) = (r = None)"
| "loop_head _ = False"

text \<open>The calls after which the inner loop is left by \<open>break\<close>.\<close>

fun drained :: "event \<Rightarrow> bool" where
  "drained (Select n r) = (case r of Inl _ \<Rightarrow> False | Inr inbox \<Rightarrow> NumMessages inbox \<le> 0)"
| "drained (Fetch ns fo r) = (r = Inr [])"
| "drained _ = False"

fun is_DialTLS :: "event \<Rightarrow> bool" where
  "is_DialTLS (DialTLS a r) = True"
| "is_DialTLS _ = False"

text \<open>
  \<open>justified rv c e h x\<close>: the call \<open>x\<close> is one the program makes after the calls
  \<open>h\<close>, with the arguments the program gives it and the answer of the environment.
\<close>

fun justified :: "revision \<Rightarrow> imapCredentials \<Rightarrow> env \<Rightarrow> event list \<Rightarrow> event \<Rightarrow> bool" where
  "justified rv c e h (DialTLS a r) = (h = [] \<and> a = Address c \<and> r = dial_r e 0)"
| "justified rv c e h (Login u p r) =
     (h = [DialTLS (Address c) None] \<and> u = Username c \<and> p = Password c \<and> r = login_r e 1)"
| "justified rv c e h (Select n r) =
     (n = ''INBOX'' \<and> r = select_r e (length h) \<and> h \<noteq> [] \<and> loop_head (last h))"
| "justified rv c e h (Fetch ns fo r) =
     (ns = SeqSetNum 1 \<and> fo = entireMessage \<and> r = fetch_r e (length h) \<and> h \<noteq> [] \<and>
      (\<exists>inbox. last h = Select ''INBOX'' (Inr inbox) \<and> \<not> NumMessages inbox \<le> 0))"
| "justified rv c e h (Import call r) =
     (r = import_r e (length h) \<and> h \<noteq> [] \<and>
      (\<exists>m ms. last h = Fetch (SeqSetNum 1) entireMessage (Inr (m # ms)) \<and>
         call = importCall (concat (BodySection m))))"
| "justified rv c e h (Store ns fl r) =
     (r = store_r e (length h) \<and> fl = addDeleted \<and> 2 \<le> length h \<and>
      (\<exists>m ms. last (butlast h) = Fetch (SeqSetNum 1) entireMessage (Inr (m # ms)) \<and>
         ns = UIDSetNum (UID m) \<and>
         (\<exists>ir. last h = Import (importCall (concat (BodySection m))) ir \<and>
               failure_of rv (last h) = None)))"
| "justified rv c e h (Expunge r) =
     (r = expunge_r e (length h) \<and> h \<noteq> [] \<and> (\<exists>ns. last h = Store ns addDeleted None))"
| "justified rv c e h (Idle r) = (r = idle_r e (length h) \<and> h \<noteq> [] \<and> drained (last h))"
| "justified rv c e h (Await d w) =
     (d = maxPollTime \<and> h \<noteq> [] \<and> last h = Idle None \<and>
      w = (case pushes e (length h) of [] \<Rightarrow> None | p # _ \<Rightarrow> Some p))"
| "justified rv c e h (IdleClose r) =
     (r = idleClose_r e (length h) \<and> h \<noteq> [] \<and> (\<exists>w. last h = Await maxPollTime w))"
| "justified rv c e h (IdleWait r) =
     (r = idleWait_r e (length h) \<and> h \<noteq> [] \<and> last h = IdleClose None)"
| "justified rv c e h Close =
     (h \<noteq> [] \<and> failure_of rv (last h) \<noteq> None \<and> \<not> is_DialTLS (last h))"

text \<open>Every call of \<open>xs\<close> is justified by the calls before it, \<open>h\<close> being those before \<open>xs\<close>.\<close>

fun wf_from :: "revision \<Rightarrow> imapCredentials \<Rightarrow> env \<Rightarrow> event list \<Rightarrow> event list \<Rightarrow> bool" where
  "wf_from rv c e h [] = True"
| "wf_from rv c e h (x # xs) = (justified rv c e h x \<and> wf_from rv c e (h @ [x]) xs)"

definition consistent :: "revision \<Rightarrow> imapCredentials \<Rightarrow> env \<Rightarrow> session \<Rightarrow> bool" where
  "consistent rv c e s = (wf_from rv c e [] (trace s) \<and> mailboxUpdate s = make_chan 0)"

definition exit_ok :: "revision \<Rightarrow> loop_exit \<Rightarrow> event \<Rightarrow> bool" where
  "exit_ok rv x ev =
     (case x of
        Spinning \<Rightarrow> loop_head ev
      | Break \<Rightarrow> drained ev
      | Return err \<Rightarrow> failure_of rv ev = Some err \<and> \<not> is_DialTLS ev)"

definition return_ok :: "revision \<Rightarrow> error option \<Rightarrow> event \<Rightarrow> bool" where
  "return_ok rv r ev =
     (case r of
        None \<Rightarrow> loop_head ev
      | Some err \<Rightarrow> failure_of rv ev = Some err \<and> \<not> is_DialTLS ev)"

definition outcome_ok ::
    "revision \<Rightarrow> imapCredentials \<Rightarrow> error option option \<Rightarrow> event list \<Rightarrow> bool" where
  "outcome_ok rv c out tr =
     (case out of
        None \<Rightarrow> loop_head (last tr)
      | Some None \<Rightarrow> False
      | Some (Some err) \<Rightarrow>
          tr = [DialTLS (Address c) (Some err)] \<or>
          (\<exists>h x. tr = h @ [x, Close] \<and> failure_of rv x = Some err))"

section \<open>Properties of the model\<close>

subsection \<open>Traces and the update channel\<close>

lemma wf_from_append:
  "wf_from rv c e h (xs @ ys) = (wf_from rv c e h xs \<and> wf_from rv c e (h @ xs) ys)"
  by (induction xs arbitrary: h) auto

lemma deliver_unbuffered: "deliver (make_chan 0) ps = make_chan 0"
  by (induction ps) (simp_all add: deliver_def make_chan_def dataHandler_Mailbox_def)

lemma idleSelect_unbuffered:
  "idleSelect (make_chan 0) ps = ((case ps of [] \<Rightarrow> None | p # _ \<Rightarrow> Some p), make_chan 0)"
  using deliver_unbuffered [where 'a = 'a]
  by (auto simp: idleSelect_def make_chan_def dataHandler_Mailbox_def split: list.splits)

lemma consistent_issue:
  "consistent rv c e s \<Longrightarrow> justified rv c e (trace s) ev \<Longrightarrow> consistent rv c e (issue e s ev)"
  by (simp add: consistent_def issue_def wf_from_append deliver_unbuffered)

lemma trace_issue: "trace (issue e s ev) = trace s @ [ev]"
  by (simp add: issue_def)

subsection \<open>The calls of one iteration\<close>

lemma fetch_step:
  assumes "consistent rv c e s" "trace s \<noteq> []"
    "last (trace s) = Select ''INBOX'' (Inr inbox)" "\<not> NumMessages inbox \<le> 0"
    "fetchFirstMessage e s = (r, s')"
  shows "consistent rv c e s' \<and>
    (\<exists>fr. trace s' = trace s @ [Fetch (SeqSetNum 1) entireMessage fr] \<and>
       (case r of
          Inl err \<Rightarrow> fr = Inl err
        | Inr None \<Rightarrow> fr = Inr []
        | Inr (Some m) \<Rightarrow>
            (\<exists>fm ms. fr = Inr (fm # ms) \<and> uid m = UID fm \<and> contents m = concat (BodySection fm))))"
proof -
  let ?fr = "fetch_r e (length (trace s))"
  let ?ev = "Fetch (SeqSetNum 1) entireMessage ?fr"
  have j: "justified rv c e (trace s) ?ev"
    using assms(2,3,4) by simp
  have s': "s' = issue e s ?ev"
    using assms(5) by (simp add: fetchFirstMessage_def Let_def split: sum.splits list.splits)
  have i: "consistent rv c e s'"
    unfolding s' by (rule consistent_issue [OF assms(1) j])
  have t: "trace s' = trace s @ [?ev]"
    unfolding s' by (rule trace_issue)
  have r: "(case r of
          Inl err \<Rightarrow> ?fr = Inl err
        | Inr None \<Rightarrow> ?fr = Inr []
        | Inr (Some m) \<Rightarrow>
            (\<exists>fm ms. ?fr = Inr (fm # ms) \<and> uid m = UID fm \<and> contents m = concat (BodySection fm)))"
    using assms(5) by (auto simp: fetchFirstMessage_def Let_def split: sum.splits list.splits)
  from i t r show ?thesis by blast
qed

lemma import_step:
  assumes "consistent rv c e s" "trace s \<noteq> []"
    "last (trace s) = Fetch (SeqSetNum 1) entireMessage (Inr (fm # ms))"
    "contents m = concat (BodySection fm)"
    "importToGmail rv e s m = (r, s')"
  shows "consistent rv c e s' \<and>
    (\<exists>ir. trace s' = trace s @ [Import (importCall (concat (BodySection fm))) ir] \<and>
        failure_of rv (Import (importCall (concat (BodySection fm))) ir) = r)"
proof -
  let ?ir = "import_r e (length (trace s))"
  let ?ev = "Import (importCall (concat (BodySection fm))) ?ir"
  have j: "justified rv c e (trace s) ?ev"
    using assms(2,3) by simp
  have s': "s' = issue e s ?ev"
    using assms(4,5)
    by (simp add: importToGmail_def Let_def split: sum.splits revision.splits if_splits)
  have i: "consistent rv c e s'"
    unfolding s' by (rule consistent_issue [OF assms(1) j])
  have t: "trace s' = trace s @ [?ev]"
    unfolding s' by (rule trace_issue)
  have r: "failure_of rv ?ev = r"
    using assms(5)
    by (auto simp: importToGmail_def Let_def split: sum.splits revision.splits if_splits)
  from i t r show ?thesis by blast
qed

lemma delete_step:
  assumes "consistent rv c e s" "2 \<le> length (trace s)"
    "last (butlast (trace s)) = Fetch (SeqSetNum 1) entireMessage (Inr (fm # ms))"
    "last (trace s) = Import (importCall (concat (BodySection fm))) ir"
    "failure_of rv (last (trace s)) = None"
    "deleteMessage e s (UID fm) = (r, s')"
  shows "consistent rv c e s' \<and> trace s' \<noteq> [] \<and> \<not> is_DialTLS (last (trace s')) \<and>
     (case r of None \<Rightarrow> loop_head (last (trace s'))
      | Some err \<Rightarrow> failure_of rv (last (trace s')) = Some err)"
proof -
  let ?r1 = "store_r e (length (trace s))"
  let ?ev1 = "Store (UIDSetNum (UID fm)) addDeleted ?r1"
  let ?s1 = "issue e s ?ev1"
  have j1: "justified rv c e (trace s) ?ev1"
    using assms(2,3,4,5) by auto
  have i1: "consistent rv c e ?s1"
    by (rule consistent_issue [OF assms(1) j1])
  show ?thesis
  proof (cases ?r1)
    case (Some err)
    then have "r = Some err" "s' = ?s1"
      using assms(6) by (auto simp: deleteMessage_def Let_def)
    then show ?thesis using i1 Some by (simp add: trace_issue)
  next
    case None
    let ?r2 = "expunge_r e (length (trace ?s1))"
    let ?ev2 = "Expunge ?r2"
    have j2: "justified rv c e (trace ?s1) ?ev2"
      using None by (simp add: trace_issue)
    have i2: "consistent rv c e (issue e ?s1 ?ev2)"
      by (rule consistent_issue [OF i1 j2])
    have "r = ?r2" "s' = issue e ?s1 ?ev2"
      using assms(6) None by (auto simp: deleteMessage_def Let_def split: option.splits)
    then show ?thesis using i2 by (simp add: trace_issue split: option.splits)
  qed
qed

lemma idle_step:
  assumes "consistent rv c e s" "trace s \<noteq> []" "drained (last (trace s))"
    "doIdle e s maxPollTime = (r, s')"
  shows "consistent rv c e s' \<and> trace s' \<noteq> [] \<and> \<not> is_DialTLS (last (trace s')) \<and>
     (case r of None \<Rightarrow> loop_head (last (trace s'))
      | Some err \<Rightarrow> failure_of rv (last (trace s')) = Some err)"
proof -
  let ?r1 = "idle_r e (length (trace s))"
  let ?s1 = "issue e s (Idle ?r1)"
  have j1: "justified rv c e (trace s) (Idle ?r1)"
    using assms(2,3) by simp
  have i1: "consistent rv c e ?s1"
    by (rule consistent_issue [OF assms(1) j1])
  show ?thesis
  proof (cases ?r1)
    case (Some err)
    then have "r = Some err" "s' = ?s1"
      using assms(4) by (auto simp: doIdle_def Let_def)
    then show ?thesis using i1 Some by (simp add: trace_issue)
  next
    case None
    let ?w = "case pushes e (length (trace ?s1)) of [] \<Rightarrow> None | p # _ \<Rightarrow> Some p"
    let ?s2 = "\<lparr>trace = trace ?s1 @ [Await maxPollTime ?w], mailboxUpdate = make_chan 0\<rparr>"
    have ch: "mailboxUpdate ?s1 = make_chan 0"
      using i1 by (simp add: consistent_def)
    have i2: "consistent rv c e ?s2"
      using i1 None by (simp add: consistent_def wf_from_append trace_issue)
    let ?r3 = "idleClose_r e (length (trace ?s2))"
    let ?s3 = "issue e ?s2 (IdleClose ?r3)"
    have i3: "consistent rv c e ?s3"
      by (rule consistent_issue [OF i2]) simp
    show ?thesis
    proof (cases ?r3)
      case (Some err)
      then have "r = Some err" "s' = ?s3"
        using assms(4) None ch by (auto simp: doIdle_def Let_def idleSelect_unbuffered)
      then show ?thesis using i3 Some by (simp add: trace_issue)
    next
      case None3: None
      let ?r4 = "idleWait_r e (length (trace ?s3))"
      let ?s4 = "issue e ?s3 (IdleWait ?r4)"
      have i4: "consistent rv c e ?s4"
      proof (rule consistent_issue [OF i3])
        show "justified rv c e (trace ?s3) (IdleWait ?r4)"
          using None3 by (simp add: trace_issue)
      qed
      have "r = ?r4" "s' = ?s4"
        using assms(4) None None3 ch
        by (auto simp: doIdle_def Let_def idleSelect_unbuffered split: option.splits)
      then show ?thesis using i4 by (simp add: trace_issue split: option.splits)
    qed
  qed
qed

subsection \<open>The loops\<close>

lemma drainLoop_consistent:
  "consistent rv c e s \<Longrightarrow> trace s \<noteq> [] \<Longrightarrow> loop_head (last (trace s)) \<Longrightarrow>
   drainLoop n rv e s = (x, s') \<Longrightarrow>
   consistent rv c e s' \<and> trace s' \<noteq> [] \<and> exit_ok rv x (last (trace s'))"
proof (induction n arbitrary: s)
  case 0
  then show ?case by (simp add: exit_ok_def)
next
  case (Suc n)
  let ?r = "select_r e (length (trace s))"
  let ?s1 = "issue e s (Select ''INBOX'' ?r)"
  have i1: "consistent rv c e ?s1"
    by (rule consistent_issue [OF Suc.prems(1)]) (simp add: Suc.prems)
  have t1: "trace ?s1 = trace s @ [Select ''INBOX'' ?r]"
    by (rule trace_issue)
  show ?case
  proof (cases ?r)
    case (Inl err)
    then have "x = Return err" "s' = ?s1"
      using Suc.prems(4) by (auto simp: Let_def)
    then show ?thesis using i1 Inl by (simp add: trace_issue exit_ok_def)
  next
    case (Inr inbox)
    show ?thesis
    proof (cases "NumMessages inbox \<le> 0")
      case True
      then have "x = Break" "s' = ?s1"
        using Suc.prems(4) Inr by (auto simp: Let_def)
      then show ?thesis using i1 Inr True by (simp add: trace_issue exit_ok_def)
    next
      case False
      obtain fr s2 where f: "fetchFirstMessage e ?s1 = (fr, s2)"
        by (cases "fetchFirstMessage e ?s1")
      have l1: "last (trace ?s1) = Select ''INBOX'' (Inr inbox)" "trace ?s1 \<noteq> []"
        using Inr by (simp_all add: trace_issue)
      from fetch_step [OF i1 l1(2) l1(1) False f]
      obtain ev where i2: "consistent rv c e s2"
        and t2: "trace s2 = trace ?s1 @ [Fetch (SeqSetNum 1) entireMessage ev]"
        and fr: "case fr of Inl err \<Rightarrow> ev = Inl err | Inr None \<Rightarrow> ev = Inr []
          | Inr (Some m) \<Rightarrow> (\<exists>fm ms. ev = Inr (fm # ms) \<and> uid m = UID fm \<and>
               contents m = concat (BodySection fm))"
        by blast
      have d: "drainLoop (Suc n) rv e s =
          (case fr of
             Inl err \<Rightarrow> (Return err, s2)
           | Inr None \<Rightarrow> (Break, s2)
           | Inr (Some msg) \<Rightarrow>
               (case importToGmail rv e s2 msg of
                  (Some err, s3) \<Rightarrow> (Return err, s3)
                | (None, s3) \<Rightarrow>
                    (case deleteMessage e s3 (uid msg) of
                       (Some err, s4) \<Rightarrow> (Return err, s4)
                     | (None, s4) \<Rightarrow> drainLoop n rv e s4)))"
        using Inr False f by (simp add: Let_def)
      show ?thesis
      proof (cases fr)
        case (Inl err)
        then have "x = Return err" "s' = s2"
          using Suc.prems(4) d by auto
        then show ?thesis using i2 fr Inl by (simp add: t2 exit_ok_def)
      next
        case fr_ok: (Inr mo)
        show ?thesis
        proof (cases mo)
          case None
          then have "x = Break" "s' = s2"
            using Suc.prems(4) d fr_ok by auto
          then show ?thesis using i2 fr fr_ok None by (simp add: t2 exit_ok_def)
        next
          case (Some msg)
          then obtain fm ms where ev: "ev = Inr (fm # ms)" and u: "uid msg = UID fm"
            and cs: "contents msg = concat (BodySection fm)"
            using fr fr_ok by auto
          obtain ir s3 where im: "importToGmail rv e s2 msg = (ir, s3)"
            by (cases "importToGmail rv e s2 msg")
          have l2: "trace s2 \<noteq> []"
            "last (trace s2) = Fetch (SeqSetNum 1) entireMessage (Inr (fm # ms))"
            using ev by (simp_all add: t2)
          from import_step [OF i2 l2 cs im]
          obtain ia where i3: "consistent rv c e s3"
            and t3: "trace s3 = trace s2 @ [Import (importCall (concat (BodySection fm))) ia]"
            and fa: "failure_of rv (Import (importCall (concat (BodySection fm))) ia) = ir"
            by blast
          show ?thesis
          proof (cases ir)
            case ir_err: (Some err)
            then have "x = Return err" "s' = s3"
              using Suc.prems(4) d fr_ok Some im by auto
            then show ?thesis using i3 fa ir_err by (simp add: t3 exit_ok_def)
          next
            case ir_ok: None
            obtain dr s4 where de: "deleteMessage e s3 (UID fm) = (dr, s4)"
              by (cases "deleteMessage e s3 (UID fm)")
            have l3: "2 \<le> length (trace s3)"
              "last (butlast (trace s3)) = Fetch (SeqSetNum 1) entireMessage (Inr (fm # ms))"
              "last (trace s3) = Import (importCall (concat (BodySection fm))) ia"
              "failure_of rv (last (trace s3)) = None"
              using ev fa ir_ok by (simp_all add: t3 t2 butlast_append)
            from delete_step [OF i3 l3 de]
            have i4: "consistent rv c e s4" and n4: "trace s4 \<noteq> []"
              and nd: "\<not> is_DialTLS (last (trace s4))"
              and r4: "case dr of None \<Rightarrow> loop_head (last (trace s4))
                 | Some err \<Rightarrow> failure_of rv (last (trace s4)) = Some err"
              by blast+
            show ?thesis
            proof (cases dr)
              case dr_err: (Some err)
              then have "x = Return err" "s' = s4"
                using Suc.prems(4) d fr_ok Some im ir_ok de u by auto
              then show ?thesis using i4 n4 nd r4 dr_err by (simp add: exit_ok_def)
            next
              case dr_ok: None
              then have "drainLoop n rv e s4 = (x, s')"
                using Suc.prems(4) d fr_ok Some im ir_ok de u by auto
              moreover have "loop_head (last (trace s4))"
                using r4 dr_ok by simp
              ultimately show ?thesis
                using Suc.IH [OF i4 n4] by blast
            qed
          qed
        qed
      qed
    qed
  qed
qed

lemma sessionLoop_consistent:
  "consistent rv c e s \<Longrightarrow> trace s \<noteq> [] \<Longrightarrow> loop_head (last (trace s)) \<Longrightarrow>
   sessionLoop n rv e s = (r, s') \<Longrightarrow>
   consistent rv c e s' \<and> trace s' \<noteq> [] \<and> return_ok rv r (last (trace s'))"
proof (induction n arbitrary: s)
  case 0
  then show ?case by (simp add: return_ok_def)
next
  case (Suc n)
  obtain x s1 where d: "drainLoop (Suc n) rv e s = (x, s1)"
    by (cases "drainLoop (Suc n) rv e s")
  from drainLoop_consistent [OF Suc.prems(1,2,3) d]
  have i1: "consistent rv c e s1" and n1: "trace s1 \<noteq> []" and x: "exit_ok rv x (last (trace s1))"
    by blast+
  show ?case
  proof (cases x)
    case Spinning
    then have "r = None" "s' = s1"
      using Suc.prems(4) d by auto
    then show ?thesis using i1 n1 x Spinning by (simp add: return_ok_def exit_ok_def)
  next
    case (Return err)
    then have "r = Some err" "s' = s1"
      using Suc.prems(4) d by auto
    then show ?thesis using i1 n1 x Return by (simp add: return_ok_def exit_ok_def)
  next
    case Break
    obtain ir s2 where id: "doIdle e s1 maxPollTime = (ir, s2)"
      by (cases "doIdle e s1 maxPollTime")
    have dr: "drained (last (trace s1))"
      using x Break by (simp add: exit_ok_def)
    from idle_step [OF i1 n1 dr id]
    have i2: "consistent rv c e s2" and n2: "trace s2 \<noteq> []"
      and nd: "\<not> is_DialTLS (last (trace s2))"
      and r2: "case ir of None \<Rightarrow> loop_head (last (trace s2))
                 | Some err \<Rightarrow> failure_of rv (last (trace s2)) = Some err"
      by blast+
    show ?thesis
    proof (cases ir)
      case (Some err)
      then have "r = Some err" "s' = s2"
        using Suc.prems(4) d Break id by auto
      then show ?thesis using i2 n2 nd r2 Some by (simp add: return_ok_def)
    next
      case None
      then have "sessionLoop n rv e s2 = (r, s')"
        using Suc.prems(4) d Break id by auto
      moreover have "loop_head (last (trace s2))"
        using r2 None by simp
      ultimately show ?thesis
        using Suc.IH [OF i2 n2] by blast
    qed
  qed
qed

lemma doSession_consistent:
  assumes "doSession rv c e fuel = (out, s)"
  shows "consistent rv c e s \<and> trace s \<noteq> [] \<and> outcome_ok rv c out (trace s)"
proof -
  let ?s0 = "\<lparr>trace = [], mailboxUpdate = make_chan 0\<rparr>"
  let ?r = "dial_r e 0"
  let ?s1 = "issue e ?s0 (DialTLS (Address c) ?r)"
  have i0: "consistent rv c e ?s0"
    by (simp add: consistent_def)
  have i1: "consistent rv c e ?s1"
    by (rule consistent_issue [OF i0]) simp
  show ?thesis
  proof (cases ?r)
    case (Some err)
    then have "out = Some (Some err)" "s = ?s1"
      using assms by (auto simp: doSession_def Let_def)
    then show ?thesis using i1 Some by (simp add: trace_issue outcome_ok_def)
  next
    case None
    let ?r2 = "login_r e 1"
    let ?s2 = "issue e ?s1 (Login (Username c) (Password c) ?r2)"
    have i2: "consistent rv c e ?s2"
      by (rule consistent_issue [OF i1]) (simp add: trace_issue None)
    have t2: "trace ?s2 = [DialTLS (Address c) None, Login (Username c) (Password c) ?r2]"
      by (simp add: trace_issue None)
    show ?thesis
    proof (cases ?r2)
      case (Some err)
      have i3: "consistent rv c e (issue e ?s2 Close)"
      proof (rule consistent_issue [OF i2])
        show "justified rv c e (trace ?s2) Close"
          using Some by (simp add: trace_issue)
      qed
      have "out = Some (Some err)" "s = issue e ?s2 Close"
        using assms None Some by (auto simp: doSession_def Let_def trace_issue)
      then show ?thesis using i3 Some by (auto simp: trace_issue outcome_ok_def None)
    next
      case login_ok: None
      obtain r3 s3 where sl: "sessionLoop fuel rv e ?s2 = (r3, s3)"
        by (cases "sessionLoop fuel rv e ?s2")
      have l2: "trace ?s2 \<noteq> []" "loop_head (last (trace ?s2))"
        using login_ok by (simp_all add: trace_issue)
      from sessionLoop_consistent [OF i2 l2 sl]
      have i3: "consistent rv c e s3" and n3: "trace s3 \<noteq> []"
        and r3: "return_ok rv r3 (last (trace s3))"
        by blast+
      show ?thesis
      proof (cases r3)
        case None3: None
        then have "out = None" "s = s3"
          using assms None login_ok sl by (auto simp: doSession_def Let_def trace_issue)
        then show ?thesis using i3 n3 r3 None3 by (simp add: outcome_ok_def return_ok_def)
      next
        case (Some err)
        have f: "failure_of rv (last (trace s3)) = Some err" "\<not> is_DialTLS (last (trace s3))"
          using r3 Some by (simp_all add: return_ok_def)
        have i4: "consistent rv c e (issue e s3 Close)"
          by (rule consistent_issue [OF i3]) (simp add: n3 f)
        have "out = Some (Some err)" "s = issue e s3 Close"
          using assms None login_ok sl Some by (auto simp: doSession_def Let_def trace_issue)
        moreover have "trace s3 @ [Close] = butlast (trace s3) @ [last (trace s3), Close]"
          using n3 by simp
        ultimately show ?thesis using i4 f by (auto simp: trace_issue outcome_ok_def)
      qed
    qed
  qed
qed

subsection \<open>What precedes and what follows a call\<close>

lemma session_wf: "wf_from rv c e [] (session_trace rv c e fuel)"
  using doSession_consistent [of rv c e fuel "fst (doSession rv c e fuel)" "snd (doSession rv c e fuel)"]
  by (simp add: session_trace_def consistent_def)

lemma session_outcome:
  "session_trace rv c e fuel \<noteq> [] \<and>
   outcome_ok rv c (session_result rv c e fuel) (session_trace rv c e fuel)"
  using doSession_consistent [of rv c e fuel "fst (doSession rv c e fuel)" "snd (doSession rv c e fuel)"]
  by (simp add: session_trace_def session_result_def)

lemma session_channel: "mailboxUpdate (snd (doSession rv c e fuel)) = make_chan 0"
  using doSession_consistent [of rv c e fuel "fst (doSession rv c e fuel)" "snd (doSession rv c e fuel)"]
  by (simp add: consistent_def)

lemma session_justified:
  "session_trace rv c e fuel = pre @ x # post \<Longrightarrow> justified rv c e pre x"
  using session_wf [of rv c e fuel] by (simp add: wf_from_append)

lemma session_successor:
  "session_trace rv c e fuel = pre @ x # y # post \<Longrightarrow> justified rv c e (pre @ [x]) y"
  using session_justified [of rv c e fuel "pre @ [x]" y post] by simp

lemma loop_head_no_failure: "loop_head x \<Longrightarrow> failure_of rv x = None"
  by (cases x) simp_all

lemma drained_no_failure: "drained x \<Longrightarrow> failure_of rv x = None"
  by (cases x) (auto split: sum.splits)

lemma nothing_after_Close: "\<not> justified rv c e (pre @ [Close]) y"
  by (cases y) simp_all

lemma after_failure:
  "justified rv c e (pre @ [x]) y \<Longrightarrow> failure_of rv x = Some err \<Longrightarrow> \<not> is_DialTLS x \<Longrightarrow>
   y = Close"
  by (cases y) (auto simp: loop_head_no_failure drained_no_failure)

lemma session_last:
  assumes "session_trace rv c e fuel = pre @ [x]"
  shows "(session_result rv c e fuel = None \<and> loop_head x) \<or>
         (\<exists>err. session_result rv c e fuel = Some (Some err) \<and>
            (x = DialTLS (Address c) (Some err) \<and> pre = [] \<or>
             x = Close \<and> pre \<noteq> [] \<and> failure_of rv (last pre) = Some err))"
proof -
  have o: "outcome_ok rv c (session_result rv c e fuel) (pre @ [x])"
    using session_outcome [of rv c e fuel] assms by simp
  show ?thesis
  proof (cases "session_result rv c e fuel")
    case None
    then show ?thesis using o by (simp add: outcome_ok_def)
  next
    case (Some r)
    then obtain err where r: "r = Some err"
      using o by (cases r) (simp_all add: outcome_ok_def)
    have "pre @ [x] = [DialTLS (Address c) (Some err)] \<or>
          (\<exists>h z. pre @ [x] = h @ [z, Close] \<and> failure_of rv z = Some err)"
      using o Some r by (simp add: outcome_ok_def)
    then show ?thesis
    proof
      assume "pre @ [x] = [DialTLS (Address c) (Some err)]"
      then show ?thesis using Some r by simp
    next
      assume "\<exists>h z. pre @ [x] = h @ [z, Close] \<and> failure_of rv z = Some err"
      then obtain h z where hz: "pre @ [x] = (h @ [z]) @ [Close]" and f: "failure_of rv z = Some err"
        by auto
      from hz have "pre = h @ [z]" "x = Close"
        by (simp_all only: append1_eq_conv)
      then show ?thesis using Some r f by simp
    qed
  qed
qed

lemma failure_ends_session:
  assumes t: "session_trace rv c e fuel = pre @ x # post"
    and f: "failure_of rv x = Some err" and d: "\<not> is_DialTLS x"
  shows "post = [Close] \<and> session_result rv c e fuel = Some (Some err)"
proof (cases post)
  case Nil
  then have "session_trace rv c e fuel = pre @ [x]" using t by simp
  from session_last [OF this] show ?thesis
    using f d by (auto simp: loop_head_no_failure)
next
  case (Cons y post')
  have y: "y = Close"
    using session_successor [of rv c e fuel pre x y post'] t Cons after_failure f d by blast
  have p: "post' = []"
  proof (cases post')
    case Nil then show ?thesis .
  next
    case (Cons z zs)
    have "justified rv c e ((pre @ [x]) @ [Close]) z"
      using session_justified [of rv c e fuel "pre @ [x, Close]" z zs] t \<open>post = y # post'\<close> y Cons
      by simp
    then show ?thesis using nothing_after_Close by blast
  qed
  have "session_trace rv c e fuel = (pre @ [x]) @ [Close]"
    using t Cons y p by simp
  from session_last [OF this] show ?thesis
    using f Cons y p by auto
qed

lemma no_failure_continues:
  assumes t: "session_trace rv c e fuel = pre @ x # post"
    and f: "failure_of rv x = None" and l: "\<not> loop_head x" and cl: "x \<noteq> Close"
  shows "\<exists>y post'. post = y # post' \<and> justified rv c e (pre @ [x]) y"
proof (cases post)
  case Nil
  then have "session_trace rv c e fuel = pre @ [x]" using t by simp
  from session_last [OF this] show ?thesis
    using f l cl by auto
next
  case (Cons y post')
  then show ?thesis
    using session_successor [of rv c e fuel pre x y post'] t by simp
qed

lemma loop_head_cases:
  "loop_head x \<Longrightarrow> (\<exists>u p. x = Login u p None) \<or> x = Expunge None \<or> x = IdleWait None"
  by (cases x) simp_all

lemma after_loop_head:
  "justified rv c e (pre @ [x]) y \<Longrightarrow> loop_head x \<Longrightarrow> \<exists>sr. y = Select ''INBOX'' sr"
  by (cases y) (auto dest!: loop_head_cases)

lemma after_Select:
  "justified rv c e (pre @ [Select name (Inr inbox)]) y \<Longrightarrow>
   (if NumMessages inbox \<le> 0 then \<exists>ir. y = Idle ir
    else \<exists>fr. y = Fetch (SeqSetNum 1) entireMessage fr)"
  by (cases y) auto

lemma after_Fetch:
  "justified rv c e (pre @ [Fetch ns fo (Inr ms)]) y \<Longrightarrow>
   (case ms of
      [] \<Rightarrow> \<exists>ir. y = Idle ir
    | m # _ \<Rightarrow> \<exists>ir. y = Import (importCall (concat (BodySection m))) ir)"
  by (cases y) (auto split: list.splits)

lemma after_Store:
  "justified rv c e (pre @ [Store ns fl None]) y \<Longrightarrow> \<exists>r. y = Expunge r"
  by (cases y) auto

lemma after_Idle:
  "justified rv c e (pre @ [Idle None]) y \<Longrightarrow>
   y = Await maxPollTime (case pushes e (Suc (length pre)) of [] \<Rightarrow> None | p # _ \<Rightarrow> Some p)"
  by (cases y) auto

lemma after_Await:
  "justified rv c e (pre @ [Await d w]) y \<Longrightarrow> \<exists>cr. y = IdleClose cr"
  by (cases y) auto

lemma after_IdleClose:
  "justified rv c e (pre @ [IdleClose None]) y \<Longrightarrow> \<exists>wr. y = IdleWait wr"
  by (cases y) auto

lemma session_first_event:
  "\<exists>tl. session_trace rv c e fuel = DialTLS (Address c) (dial_r e 0) # tl"
proof (cases "session_trace rv c e fuel")
  case Nil
  then show ?thesis using session_outcome [of rv c e fuel] by simp
next
  case (Cons x tl)
  then have "justified rv c e [] x"
    using session_justified [of rv c e fuel "[]" x tl] by simp
  then have "x = DialTLS (Address c) (dial_r e 0)"
    by (cases x) auto
  then show ?thesis using Cons by simp
qed

lemma session_result_error:
  "session_result rv c e fuel \<noteq> None \<Longrightarrow>
   \<exists>err. session_result rv c e fuel = Some (Some err)"
  using session_outcome [of rv c e fuel]
  by (auto simp: outcome_ok_def split: option.splits)

lemma supervise_rounds:
  "\<forall>i<k. session_result rv c (envs (j + i)) fuel \<noteq> None \<Longrightarrow>
   supervise rv c envs fuel j (k + m) =
     concat (map (\<lambda>i. [RunSession c (session_trace rv c (envs i) fuel), Sleep maxPollTime])
               [j..<j + k]) @
     supervise rv c envs fuel (j + k) m"
proof (induction k arbitrary: j)
  case 0
  then show ?case by simp
next
  case (Suc k)
  have "session_result rv c (envs (j + 0)) fuel \<noteq> None"
    using Suc.prems by blast
  then obtain r s where d: "doSession rv c (envs j) fuel = (Some r, s)"
    by (cases "doSession rv c (envs j) fuel") (auto simp: session_result_def)
  have "\<forall>i<k. session_result rv c (envs (Suc j + i)) fuel \<noteq> None"
    using Suc.prems by (metis Suc_less_eq add_Suc_shift)
  from Suc.IH [OF this]
  have ih: "supervise rv c envs fuel (Suc j) (k + m) =
     concat (map (\<lambda>i. [RunSession c (session_trace rv c (envs i) fuel), Sleep maxPollTime])
               [Suc j..<Suc j + k]) @
     supervise rv c envs fuel (Suc j + k) m" .
  have u: "[j..<Suc (j + k)] = j # [Suc j..<Suc (j + k)]"
    by (simp add: upt_conv_Cons)
  show ?case
    using d ih by (simp add: u session_trace_def del: upt_Suc)
qed

lemma sleep_after_session:
  "supervise rv c envs fuel j k = pre @ Sleep d # post \<Longrightarrow>
   \<exists>pre' i err. pre = pre' @ [RunSession c (session_trace rv c (envs i) fuel)] \<and>
      session_result rv c (envs i) fuel = Some (Some err)"
proof (induction k arbitrary: j pre)
  case 0
  then show ?case by simp
next
  case (Suc k)
  obtain out s where d: "doSession rv c (envs j) fuel = (out, s)"
    by (cases "doSession rv c (envs j) fuel")
  show ?case
  proof (cases out)
    case None
    then have "[RunSession c (trace s)] = pre @ Sleep d # post"
      using Suc.prems d by simp
    then show ?thesis by (cases pre) auto
  next
    case (Some r)
    have res: "session_result rv c (envs j) fuel = Some r"
      using d Some by (simp add: session_result_def)
    then obtain err where err: "session_result rv c (envs j) fuel = Some (Some err)"
      using session_result_error [of rv c "envs j" fuel] by auto
    have tr: "session_trace rv c (envs j) fuel = trace s"
      using d by (simp add: session_trace_def)
    have eq: "RunSession c (trace s) # Sleep maxPollTime # supervise rv c envs fuel (Suc j) k =
        pre @ Sleep d # post"
      using Suc.prems d Some by simp
    show ?thesis
    proof (cases pre)
      case Nil
      then show ?thesis using eq by simp
    next
      case (Cons a pre1)
      then have a: "a = RunSession c (trace s)"
        and eq1: "Sleep maxPollTime # supervise rv c envs fuel (Suc j) k = pre1 @ Sleep d # post"
        using eq by simp_all
      show ?thesis
      proof (cases pre1)
        case Nil
        then have "pre = [] @ [RunSession c (session_trace rv c (envs j) fuel)]"
          using Cons a tr by simp
        then show ?thesis using err by blast
      next
        case inner: (Cons b pre2)
        then have "supervise rv c envs fuel (Suc j) k = pre2 @ Sleep d # post"
          using eq1 by simp
        from Suc.IH [OF this]
        obtain pre' i err' where "pre2 = pre' @ [RunSession c (session_trace rv c (envs i) fuel)]"
          and "session_result rv c (envs i) fuel = Some (Some err')"
          by blast
        then have "pre = (a # b # pre') @ [RunSession c (session_trace rv c (envs i) fuel)] \<and>
            session_result rv c (envs i) fuel = Some (Some err')"
          using Cons inner by simp
        then show ?thesis by blast
      qed
    qed
  qed
qed

lemma drain_iteration_named:
  assumes "session_trace rv c e fuel = pre @ x # post"
  shows "case x of
      Select name r \<Rightarrow>
        name = ''INBOX'' \<and> r = select_r e (length pre) \<and>
        (case r of
           Inl err \<Rightarrow> post = [Close] \<and> session_result rv c e fuel = Some (Some err)
         | Inr inbox \<Rightarrow>
             if NumMessages inbox \<le> 0 then (\<exists>ir post'. post = Idle ir # post')
             else (\<exists>fr post'. post = Fetch (SeqSetNum 1) entireMessage fr # post'))
    | Fetch ns fo r \<Rightarrow>
        ns = SeqSetNum 1 \<and> fo = entireMessage \<and> r = fetch_r e (length pre) \<and>
        (\<exists>pre' inbox. pre = pre' @ [Select ''INBOX'' (Inr inbox)] \<and> 0 < NumMessages inbox) \<and>
        (case r of
           Inl err \<Rightarrow> post = [Close] \<and> session_result rv c e fuel = Some (Some err)
         | Inr [] \<Rightarrow> (\<exists>ir post'. post = Idle ir # post')
         | Inr (m # ms) \<Rightarrow>
             (\<exists>ir post'. post = Import (importCall (concat (BodySection m))) ir # post'))
    | Expunge r \<Rightarrow>
        (case r of
           Some err \<Rightarrow> post = [Close] \<and> session_result rv c e fuel = Some (Some err)
         | None \<Rightarrow>
             post = [] \<and> session_result rv c e fuel = None \<or>
             (\<exists>sr post'. post = Select ''INBOX'' sr # post'))
    | _ \<Rightarrow> True"
proof (cases x)
  case (Select name r)
  have t: "session_trace rv c e fuel = pre @ Select name r # post"
    using assms Select by simp
  have n: "name = ''INBOX'' \<and> r = select_r e (length pre)"
    using session_justified [OF t] by simp
  have "case r of
           Inl err \<Rightarrow> post = [Close] \<and> session_result rv c e fuel = Some (Some err)
         | Inr inbox \<Rightarrow>
             if NumMessages inbox \<le> 0 then (\<exists>ir post'. post = Idle ir # post')
             else (\<exists>fr post'. post = Fetch (SeqSetNum 1) entireMessage fr # post')"
  proof (cases r)
    case (Inl err)
    then show ?thesis
      using failure_ends_session [OF t, of err] by simp
  next
    case (Inr inbox)
    from no_failure_continues [OF t] Inr
    obtain y post' where p: "post = y # post'"
      and j: "justified rv c e (pre @ [Select name (Inr inbox)]) y"
      by auto
    from after_Select [OF j] p Inr show ?thesis
      by (cases "NumMessages inbox \<le> 0") auto
  qed
  with n Select show ?thesis by simp
next
  case (Fetch ns fo r)
  have t: "session_trace rv c e fuel = pre @ Fetch ns fo r # post"
    using assms Fetch by simp
  from session_justified [OF t]
  obtain inbox where a: "ns = SeqSetNum 1" "fo = entireMessage" "r = fetch_r e (length pre)"
    and p: "pre \<noteq> []" and l: "last pre = Select ''INBOX'' (Inr inbox)"
    and pos: "\<not> NumMessages inbox \<le> 0"
    by auto
  have "pre = butlast pre @ [Select ''INBOX'' (Inr inbox)]"
    using p l by (metis append_butlast_last_id)
  moreover have "0 < NumMessages inbox"
    using pos by (simp add: word_neq_0_conv [symmetric])
  ultimately have b: "\<exists>pre' inbox. pre = pre' @ [Select ''INBOX'' (Inr inbox)] \<and>
      0 < NumMessages inbox"
    by blast
  have "case r of
           Inl err \<Rightarrow> post = [Close] \<and> session_result rv c e fuel = Some (Some err)
         | Inr [] \<Rightarrow> (\<exists>ir post'. post = Idle ir # post')
         | Inr (m # ms) \<Rightarrow>
             (\<exists>ir post'. post = Import (importCall (concat (BodySection m))) ir # post')"
  proof (cases r)
    case (Inl err)
    then show ?thesis
      using failure_ends_session [OF t, of err] by simp
  next
    case (Inr found)
    from no_failure_continues [OF t] Inr
    obtain y post' where q: "post = y # post'"
      and j: "justified rv c e (pre @ [Fetch ns fo (Inr found)]) y"
      by auto
    from after_Fetch [OF j] q Inr show ?thesis
      by (cases found) auto
  qed
  with a b Fetch show ?thesis by simp
next
  case (Expunge r)
  have t: "session_trace rv c e fuel = pre @ Expunge r # post"
    using assms Expunge by simp
  have "case r of
           Some err \<Rightarrow> post = [Close] \<and> session_result rv c e fuel = Some (Some err)
         | None \<Rightarrow>
             post = [] \<and> session_result rv c e fuel = None \<or>
             (\<exists>sr post'. post = Select ''INBOX'' sr # post')"
  proof (cases r)
    case (Some err)
    then show ?thesis
      using failure_ends_session [OF t, of err] by simp
  next
    case None
    show ?thesis
    proof (cases post)
      case Nil
      then have "session_trace rv c e fuel = pre @ [Expunge r]"
        using t by simp
      from session_last [OF this] show ?thesis
        using None Nil by auto
    next
      case (Cons y post')
      have "justified rv c e (pre @ [Expunge r]) y"
        using session_successor [of rv c e fuel pre "Expunge r" y post'] t Cons by simp
      moreover have "loop_head (Expunge r)"
        using None by simp
      ultimately have "\<exists>sr. y = Select ''INBOX'' sr"
        by (rule after_loop_head)
      then show ?thesis using None Cons by auto
    qed
  qed
  with Expunge show ?thesis by simp
qed simp_all

lemma store_before_expunge_named:
  assumes "session_trace rv c e fuel = pre @ x # post"
  shows "case x of
         Store ns fl r \<Rightarrow>
           fl = addDeleted \<and> r = store_r e (length pre) \<and>
           (\<exists>pre' m ms ir. pre = pre' @ [Fetch (SeqSetNum 1) entireMessage (Inr (m # ms)),
                 Import (importCall (concat (BodySection m))) ir] \<and>
              ns = UIDSetNum (UID m)) \<and>
           (case r of
              Some err \<Rightarrow> post = [Close] \<and> session_result rv c e fuel = Some (Some err)
            | None \<Rightarrow> (\<exists>r2 post'. post = Expunge r2 # post'))
       | Expunge r \<Rightarrow>
           r = expunge_r e (length pre) \<and>
           (\<exists>pre' w. pre = pre' @ [Store (UIDSetNum w) addDeleted None])
       | _ \<Rightarrow> True"
proof (cases x)
  case (Store ns fl r)
  have t: "session_trace rv c e fuel = pre @ Store ns fl r # post"
    using assms Store by simp
  from session_justified [OF t]
  obtain m ms ir where a: "fl = addDeleted" "r = store_r e (length pre)"
    and len: "2 \<le> length pre"
    and f: "last (butlast pre) = Fetch (SeqSetNum 1) entireMessage (Inr (m # ms))"
    and i: "last pre = Import (importCall (concat (BodySection m))) ir"
    and ns: "ns = UIDSetNum (UID m)"
    by auto
  have "length (butlast pre) \<noteq> 0"
    using len by simp
  then have b: "butlast pre \<noteq> []"
    by (simp del: length_butlast)
  then have p: "pre \<noteq> []"
    by auto
  from p b have "pre = butlast (butlast pre) @ [last (butlast pre), last pre]"
    by (metis append.assoc append_Cons append_Nil append_butlast_last_id)
  then have "pre = butlast (butlast pre) @ [Fetch (SeqSetNum 1) entireMessage (Inr (m # ms)),
      Import (importCall (concat (BodySection m))) ir]"
    using f i by simp
  then have d: "\<exists>pre' m ms ir. pre = pre' @ [Fetch (SeqSetNum 1) entireMessage (Inr (m # ms)),
                 Import (importCall (concat (BodySection m))) ir] \<and>
              ns = UIDSetNum (UID m)"
    using ns by blast
  have "case r of
              Some err \<Rightarrow> post = [Close] \<and> session_result rv c e fuel = Some (Some err)
            | None \<Rightarrow> (\<exists>r2 post'. post = Expunge r2 # post')"
  proof (cases r)
    case (Some err)
    then show ?thesis
      using failure_ends_session [OF t, of err] by simp
  next
    case None
    from no_failure_continues [OF t] None
    obtain y post' where "post = y # post'"
      and "justified rv c e (pre @ [Store ns fl None]) y"
      by auto
    then show ?thesis using after_Store None by fastforce
  qed
  with a d Store show ?thesis by simp
next
  case (Expunge r)
  have t: "session_trace rv c e fuel = pre @ Expunge r # post"
    using assms Expunge by simp
  from session_justified [OF t]
  obtain ns where r: "r = expunge_r e (length pre)"
    and p: "pre \<noteq> []" and l: "last pre = Store ns addDeleted None"
    by auto
  have "session_trace rv c e fuel = butlast pre @ Store ns addDeleted None # Expunge r # post"
    using t p l by (metis append.assoc append_Cons append_Nil append_butlast_last_id)
  from session_justified [OF this] obtain w where "ns = UIDSetNum w"
    by auto
  then have "pre = butlast pre @ [Store (UIDSetNum w) addDeleted None]"
    using p l by (metis append_butlast_last_id)
  then show ?thesis using Expunge r by auto
qed simp_all

subsection \<open>Example runs\<close>

lemmas run_defs = session_trace_def session_result_def doSession_def issue_def deliver_def
  make_chan_def fetchFirstMessage_def importToGmail_def deleteMessage_def doIdle_def
  idleSelect_def dataHandler_Mailbox_def Let_def account_def msg12_def calm_def
  one_message_def unreachable_def numeral_2_eq_2

lemma delivered_run:
  "session_trace MainGo account (one_message (Inr 200)) 2 = delivered_trace"
  by (simp add: run_defs delivered_trace_def)

lemma mainGo_rejected_import_run:
  "session_trace MainGo account (one_message (Inr 500)) 2 =
     [DialTLS ''imap.example.org:993'' None,
      Login ''alice'' ''secret'' None,
      Select ''INBOX'' (Inr \<lparr>NumMessages = 1\<rparr>),
      Fetch (SeqSetNum 1) entireMessage (Inr [msg12]),
      Import (importCall [0x48, 0x69, 0x21]) (Inr 500),
      Close] \<and>
   session_result MainGo account (one_message (Inr 500)) 2 = Some (Some (GmailStatusCode 500))"
  by (simp add: run_defs)

section \<open>The claims\<close>

text \<open>
  C1. A message is deleted from the source (STORE of the deleted flag, then EXPUNGE) if
  and only if the import of its bytes into the destination was confirmed; after a failed
  import the session returns an error and the message stays. The earlier revision of
  \<open>importToGmail\<close> breaks this: whatever status the destination answers, the session
  goes on to delete UID 12. (main.go is treated in the last section.)
\<close>

theorem part000_deletes_after_rejected_import:
  "session_trace Part000 account (one_message (Inr code)) 2 =
     [DialTLS ''imap.example.org:993'' None,
      Login ''alice'' ''secret'' None,
      Select ''INBOX'' (Inr \<lparr>NumMessages = 1\<rparr>),
      Fetch (SeqSetNum 1) entireMessage (Inr [msg12]),
      Import (importCall [0x48, 0x69, 0x21]) (Inr code),
      Store (UIDSetNum 12) addDeleted None,
      Expunge None,
      Select ''INBOX'' (Inr \<lparr>NumMessages = 0\<rparr>),
      Idle None,
      Await maxPollTime None,
      IdleClose None,
      IdleWait (Some (External ''EOF'')),
      Close]"
  by (simp add: run_defs)

text \<open>
  C2. \<open>importToGmail\<close> fails whenever the destination answers with a status other than
  success or the transport fails; a status other than 200 is never taken for success.
  The earlier revision of \<open>importToGmail\<close> returns nil for every status \<open>code\<close>, where
  main.go returns an error for, say, 500 and 202.
\<close>

theorem part000_import_accepts_any_status:
  "fst (importToGmail Part000 (one_message (Inr code))
         \<lparr>trace = [], mailboxUpdate = make_chan 0\<rparr>
         \<lparr>uid = 12, contents = [0x48, 0x69, 0x21]\<rparr>) = None \<and>
   fst (importToGmail MainGo (one_message (Inr 500))
         \<lparr>trace = [], mailboxUpdate = make_chan 0\<rparr>
         \<lparr>uid = 12, contents = [0x48, 0x69, 0x21]\<rparr>) = Some (GmailStatusCode 500) \<and>
   fst (importToGmail MainGo (one_message (Inr 202))
         \<lparr>trace = [], mailboxUpdate = make_chan 0\<rparr>
         \<lparr>uid = 12, contents = [0x48, 0x69, 0x21]\<rparr>) = Some (GmailStatusCode 202)"
  by (simp add: run_defs)

text \<open>
  C3. Every iteration of the drain loop selects the target mailbox, whose name comes
  from the configuration (by default INBOX), reads the message count, is done if the
  count is zero, and otherwise fetches the message at sequence position 1, afresh each
  time, and hands it to the transfer. The source does all of this but the first: the
  name is the constant INBOX for every account, whatever its configuration says. A
  SELECT names INBOX and carries the server's answer to this very call; a failed one
  ends the session; after a count of zero comes the idle wait, after a positive one the
  FETCH. A FETCH asks for sequence number 1 and the whole message and comes right after
  a SELECT that reported a positive count; a failed one ends the session, an empty one
  leads to the idle wait, and otherwise the bytes of the first message are handed to the
  import. After a successful EXPUNGE the next call, if the session makes one, is SELECT
  again.
\<close>

theorem drain_iteration:
  assumes "session_trace rv c e fuel = pre @ x # post"
  shows "case x of
      Select name r \<Rightarrow>
        name = ''INBOX'' \<and> r = select_r e (length pre) \<and>
        (case r of
           Inl err \<Rightarrow> post = [Close] \<and> session_result rv c e fuel = Some (Some err)
         | Inr inbox \<Rightarrow>
             if NumMessages inbox \<le> 0 then (\<exists>ir post'. post = Idle ir # post')
             else (\<exists>fr post'. post =
                     Fetch (SeqSet [1]) [\<lparr>Specifier = [], Part = [], Peek = False\<rparr>] fr # post'))
    | Fetch ns fo r \<Rightarrow>
        ns = SeqSet [1] \<and> fo = [\<lparr>Specifier = [], Part = [], Peek = False\<rparr>] \<and>
        r = fetch_r e (length pre) \<and>
        (\<exists>pre' inbox. pre = pre' @ [Select ''INBOX'' (Inr inbox)] \<and> 0 < NumMessages inbox) \<and>
        (case r of
           Inl err \<Rightarrow> post = [Close] \<and> session_result rv c e fuel = Some (Some err)
         | Inr [] \<Rightarrow> (\<exists>ir post'. post = Idle ir # post')
         | Inr (m # ms) \<Rightarrow>
             (\<exists>ir post'. post =
                Import \<lparr>userId = ''me'', LabelIds = [''INBOX'', ''UNREAD''],
                        InternalDateSource = ''dateHeader'', NeverMarkSpam = False,
                        ProcessForCalendar = True, Deleted = False,
                        Media = concat (BodySection m),
                        ContentType = ''message/rfc822''\<rparr> ir # post'))
    | Expunge r \<Rightarrow>
        (case r of
           Some err \<Rightarrow> post = [Close] \<and> session_result rv c e fuel = Some (Some err)
         | None \<Rightarrow>
             post = [] \<and> session_result rv c e fuel = None \<or>
             (\<exists>sr post'. post = Select ''INBOX'' sr # post'))
    | _ \<Rightarrow> True"
  using drain_iteration_named [OF assms]
  unfolding SeqSetNum_def entireMessage_def importCall_def .

theorem drain_iteration_witness:
  "session_trace MainGo account (one_message (Inr 200)) 2 =
     take 2 delivered_trace @ Select ''INBOX'' (Inr \<lparr>NumMessages = 1\<rparr>) # drop 3 delivered_trace \<and>
   Inr \<lparr>NumMessages = 1\<rparr> = select_r (one_message (Inr 200)) (length (take 2 delivered_trace)) \<and>
   (\<exists>fr post'. drop 3 delivered_trace =
      Fetch (SeqSet [1]) [\<lparr>Specifier = [], Part = [], Peek = False\<rparr>] fr # post')"
proof -
  have h: "session_trace MainGo account (one_message (Inr 200)) 2 =
     take 2 delivered_trace @ Select ''INBOX'' (Inr \<lparr>NumMessages = 1\<rparr>) # drop 3 delivered_trace"
    by (simp add: delivered_run delivered_trace_def)
  from drain_iteration [OF h] h show ?thesis by simp
qed

text \<open>
  C4. A failed IDLE ends the session with that error. After a successful one the
  session waits, with the deadline \<open>maxPollTime\<close>, for the first update pushed during
  the wait, or for the timer when none is pushed. Whichever ends the wait, the idle
  request is then closed. If closing fails the session ends with that error; otherwise
  the server's acknowledgment is awaited; if that fails the session ends with that
  error; otherwise the next call, if the session makes one, is the SELECT of the
  drain loop.
\<close>

theorem idle_wait_terminated:
  assumes "session_trace rv c e fuel = pre @ Idle ir # post"
  shows "case ir of
      Some err \<Rightarrow> post = [Close] \<and> session_result rv c e fuel = Some (Some err)
    | None \<Rightarrow>
       (\<exists>cr post1.
          post = Await maxPollTime
                   (case pushes e (Suc (length pre)) of [] \<Rightarrow> None | p # _ \<Rightarrow> Some p) #
                 IdleClose cr # post1 \<and>
          (case cr of
             Some err \<Rightarrow> post1 = [Close] \<and> session_result rv c e fuel = Some (Some err)
           | None \<Rightarrow>
              (\<exists>wr post2.
                 post1 = IdleWait wr # post2 \<and>
                 (case wr of
                    Some err \<Rightarrow>
                      post2 = [Close] \<and> session_result rv c e fuel = Some (Some err)
                  | None \<Rightarrow>
                      post2 = [] \<and> session_result rv c e fuel = None \<or>
                      (\<exists>sr post3. post2 = Select ''INBOX'' sr # post3)))))"
proof (cases ir)
  case (Some err)
  then show ?thesis
    using failure_ends_session [OF assms, of err] by simp
next
  case None
  let ?w = "case pushes e (Suc (length pre)) of [] \<Rightarrow> None | p # _ \<Rightarrow> Some p"
  from no_failure_continues [OF assms] None
  obtain y p0 where "post = y # p0" and "justified rv c e (pre @ [Idle None]) y"
    by auto
  then have p0: "post = Await maxPollTime ?w # p0"
    using after_Idle by blast
  have t1: "session_trace rv c e fuel = (pre @ [Idle None]) @ Await maxPollTime ?w # p0"
    using assms None p0 by simp
  from no_failure_continues [OF t1]
  obtain y1 post1 where "p0 = y1 # post1"
    and "justified rv c e ((pre @ [Idle None]) @ [Await maxPollTime ?w]) y1"
    by auto
  then obtain cr where p1: "p0 = IdleClose cr # post1"
    using after_Await by blast
  have t2: "session_trace rv c e fuel =
      (pre @ [Idle None, Await maxPollTime ?w]) @ IdleClose cr # post1"
    using t1 p1 by simp
  have "case cr of
          Some err \<Rightarrow> post1 = [Close] \<and> session_result rv c e fuel = Some (Some err)
        | None \<Rightarrow>
           (\<exists>wr post2.
              post1 = IdleWait wr # post2 \<and>
              (case wr of
                 Some err \<Rightarrow> post2 = [Close] \<and> session_result rv c e fuel = Some (Some err)
               | None \<Rightarrow>
                   post2 = [] \<and> session_result rv c e fuel = None \<or>
                   (\<exists>sr post3. post2 = Select ''INBOX'' sr # post3)))"
  proof (cases cr)
    case (Some err)
    then show ?thesis
      using failure_ends_session [OF t2, of err] by simp
  next
    case cr_ok: None
    from no_failure_continues [OF t2] cr_ok
    obtain y2 post2 where "post1 = y2 # post2"
      and "justified rv c e ((pre @ [Idle None, Await maxPollTime ?w]) @ [IdleClose None]) y2"
      by auto
    then obtain wr where p2: "post1 = IdleWait wr # post2"
      using after_IdleClose by blast
    have t3: "session_trace rv c e fuel =
        (pre @ [Idle None, Await maxPollTime ?w, IdleClose cr]) @ IdleWait wr # post2"
      using t2 p2 by simp
    have "case wr of
            Some err \<Rightarrow> post2 = [Close] \<and> session_result rv c e fuel = Some (Some err)
          | None \<Rightarrow>
              post2 = [] \<and> session_result rv c e fuel = None \<or>
              (\<exists>sr post3. post2 = Select ''INBOX'' sr # post3)"
    proof (cases wr)
      case (Some err)
      then show ?thesis
        using failure_ends_session [OF t3, of err] by simp
    next
      case wr_ok: None
      show ?thesis
      proof (cases post2)
        case Nil
        have "session_trace rv c e fuel =
            (pre @ [Idle None, Await maxPollTime ?w, IdleClose cr]) @ [IdleWait wr]"
          using t3 Nil by simp
        from session_last [OF this] show ?thesis
          using wr_ok Nil by auto
      next
        case (Cons y3 post3)
        have "justified rv c e
            ((pre @ [Idle None, Await maxPollTime ?w, IdleClose cr]) @ [IdleWait wr]) y3"
          using session_successor [of rv c e fuel _ "IdleWait wr" y3 post3] t3 Cons by simp
        moreover have "loop_head (IdleWait wr)"
          using wr_ok by simp
        ultimately have "\<exists>sr. y3 = Select ''INBOX'' sr"
          by (rule after_loop_head)
        then show ?thesis using wr_ok Cons by auto
      qed
    qed
    then show ?thesis using cr_ok p2 by simp
  qed
  then show ?thesis using None p0 p1 by simp
qed

theorem idle_wait_terminated_witness:
  "session_trace MainGo account (one_message (Inr 200)) 2 =
     take 8 delivered_trace @ Idle None # drop 9 delivered_trace \<and>
   (\<exists>cr post1. drop 9 delivered_trace = Await maxPollTime None # IdleClose cr # post1)"
proof -
  have h: "session_trace MainGo account (one_message (Inr 200)) 2 =
     take 8 delivered_trace @ Idle None # drop 9 delivered_trace"
    by (simp add: delivered_run delivered_trace_def)
  have p: "pushes (one_message (Inr 200)) (Suc (length (take 8 delivered_trace))) = []"
    by (simp add: one_message_def calm_def)
  from idle_wait_terminated [OF h] h p show ?thesis by auto
qed

text \<open>
  C5. When SELECT reported a positive count and the FETCH of position 1 returns no
  message, the next call is IDLE: the mailbox counts as drained and no error is
  returned.
\<close>

theorem empty_fetch_is_drained:
  assumes "session_trace rv c e fuel =
      pre @ Select name (Inr inbox) # Fetch ns fo (Inr []) # post"
  shows "0 < NumMessages inbox \<and> (\<exists>ir post'. post = Idle ir # post')"
proof -
  have "justified rv c e (pre @ [Select name (Inr inbox)]) (Fetch ns fo (Inr []))"
    using session_successor [OF assms] .
  then have pos: "0 < NumMessages inbox"
    by (simp add: word_neq_0_conv [symmetric])
  have t: "session_trace rv c e fuel =
      (pre @ [Select name (Inr inbox)]) @ Fetch ns fo (Inr []) # post"
    using assms by simp
  from no_failure_continues [OF t]
  obtain y post' where "post = y # post'"
    and "justified rv c e ((pre @ [Select name (Inr inbox)]) @ [Fetch ns fo (Inr [])]) y"
    by auto
  then have "\<exists>ir post'. post = Idle ir # post'"
    using after_Fetch [of rv c e "pre @ [Select name (Inr inbox)]" ns fo "[]" y] by auto
  with pos show ?thesis by simp
qed

theorem empty_fetch_is_drained_witness:
  "session_trace MainGo account racing 1 =
     [DialTLS ''imap.example.org:993'' None, Login ''alice'' ''secret'' None] @
     Select ''INBOX'' (Inr \<lparr>NumMessages = 1\<rparr>) #
     Fetch (SeqSetNum 1) entireMessage (Inr []) #
     [Idle None, Await maxPollTime None, IdleClose None, IdleWait None] \<and>
   (0::32 word) < NumMessages \<lparr>NumMessages = 1\<rparr> \<and>
   (\<exists>ir post'. [Idle None, Await maxPollTime None, IdleClose None, IdleWait None] =
      Idle ir # post')"
proof -
  have h: "session_trace MainGo account racing 1 =
     [DialTLS ''imap.example.org:993'' None, Login ''alice'' ''secret'' None] @
     Select ''INBOX'' (Inr \<lparr>NumMessages = 1\<rparr>) #
     Fetch (SeqSetNum 1) entireMessage (Inr []) #
     [Idle None, Await maxPollTime None, IdleClose None, IdleWait None]"
    by (simp add: run_defs racing_def)
  from empty_fetch_is_drained [OF h] h show ?thesis by simp
qed

text \<open>
  C6. As long as the sessions of an account return, the supervisor runs one after the
  other, each followed by a sleep of \<open>maxPollTime\<close>, whatever the number \<open>k\<close> of
  sessions so far, and then runs the next one. Each of them returned an error, each
  starts again with the dial of the account's address, the sleep is the deadline of
  every idle wait, and it is five minutes.
\<close>

theorem supervisor_restarts:
  assumes "\<forall>i<k. session_result rv c (envs i) fuel \<noteq> None"
  shows "supervise rv c envs fuel 0 (k + m) =
      concat (map (\<lambda>i. [RunSession c (session_trace rv c (envs i) fuel), Sleep maxPollTime])
                [0..<k]) @
      supervise rv c envs fuel k m \<and>
    (\<exists>rest. supervise rv c envs fuel k (Suc m) =
        RunSession c (session_trace rv c (envs k) fuel) # rest) \<and>
    (\<forall>i<k. \<exists>err. session_result rv c (envs i) fuel = Some (Some err)) \<and>
    (\<forall>i. \<exists>tl. session_trace rv c (envs i) fuel =
              DialTLS (Address c) (dial_r (envs i) 0) # tl) \<and>
    (\<forall>i pre d w post. session_trace rv c (envs i) fuel = pre @ Await d w # post \<longrightarrow>
       d = maxPollTime) \<and>
    maxPollTime = 300000000000"
proof -
  have a: "supervise rv c envs fuel 0 (k + m) =
      concat (map (\<lambda>i. [RunSession c (session_trace rv c (envs i) fuel), Sleep maxPollTime])
                [0..<k]) @
      supervise rv c envs fuel k m"
    using supervise_rounds [of k rv c envs 0 fuel m] assms by simp
  have n: "\<exists>rest. supervise rv c envs fuel k (Suc m) =
        RunSession c (session_trace rv c (envs k) fuel) # rest"
    by (simp add: session_trace_def split: prod.splits option.splits)
  have b: "\<forall>i<k. \<exists>err. session_result rv c (envs i) fuel = Some (Some err)"
    using assms session_result_error by blast
  have c: "\<forall>i. \<exists>tl. session_trace rv c (envs i) fuel =
              DialTLS (Address c) (dial_r (envs i) 0) # tl"
    using session_first_event by blast
  have d: "\<forall>i pre d w post. session_trace rv c (envs i) fuel = pre @ Await d w # post \<longrightarrow>
       d = maxPollTime"
  proof (intro allI impI)
    fix i pre d w post
    assume "session_trace rv c (envs i) fuel = pre @ Await d w # post"
    from session_justified [OF this] show "d = maxPollTime" by simp
  qed
  have e: "maxPollTime = 300000000000"
    by (simp add: maxPollTime_def Minute_def)
  from a n b c d e show ?thesis by blast
qed

theorem supervisor_restarts_witness:
  "session_result MainGo account unreachable 0 \<noteq> None \<and>
   supervise MainGo account (\<lambda>i. unreachable) 0 0 (2 + 0) =
     [RunSession account
        [DialTLS ''imap.example.org:993'' (Some (External ''connection refused''))],
      Sleep 300000000000,
      RunSession account
        [DialTLS ''imap.example.org:993'' (Some (External ''connection refused''))],
      Sleep 300000000000]"
proof -
  have r: "session_result MainGo account unreachable 0 \<noteq> None"
    by (simp add: run_defs)
  then have h: "\<forall>i<2. session_result MainGo account ((\<lambda>i. unreachable) i) 0 \<noteq> None"
    by simp
  have t: "session_trace MainGo account unreachable 0 =
      [DialTLS ''imap.example.org:993'' (Some (External ''connection refused''))]"
    by (simp add: run_defs)
  have u: "[0..<2] = [0, Suc 0]"
    by (simp add: numeral_2_eq_2)
  from supervisor_restarts [OF h, of 0] r t show ?thesis
    by (simp add: u)
qed

text \<open>
  C7. Every import request marks the message unread, asks for calendar processing and
  takes the date from the message's date header, with the labels derived from the
  configuration (by default INBOX to the inbox, Junk to spam). The source does all of
  this but the last: the labels are the constants INBOX and UNREAD for every account,
  whatever its configuration says. Every import request, whatever its outcome, is for
  user \<open>''me''\<close>, carries the labels INBOX and UNREAD, takes the date from the
  message's date header, asks for calendar processing, does not exempt the message from
  spam classification, does not mark it deleted, and uploads as message/rfc822 the bytes
  of the message fetched just before.
\<close>

theorem import_request_fixed:
  assumes "session_trace rv c e fuel = pre @ Import call r # post"
  shows "LabelIds call = [''INBOX'', ''UNREAD''] \<and> InternalDateSource call = ''dateHeader'' \<and>
    ProcessForCalendar call \<and> \<not> NeverMarkSpam call \<and> \<not> Deleted call \<and>
    userId call = ''me'' \<and> ContentType call = ''message/rfc822'' \<and>
    (\<exists>pre' m ms. pre = pre' @ [Fetch (SeqSetNum 1) entireMessage (Inr (m # ms))] \<and>
       Media call = concat (BodySection m))"
proof -
  from session_justified [OF assms]
  obtain m ms where p: "pre \<noteq> []"
    and l: "last pre = Fetch (SeqSetNum 1) entireMessage (Inr (m # ms))"
    and c: "call = importCall (concat (BodySection m))"
    by auto
  have "pre = butlast pre @ [Fetch (SeqSetNum 1) entireMessage (Inr (m # ms))]"
    using p l by (metis append_butlast_last_id)
  then show ?thesis using c by (auto simp: importCall_def)
qed

theorem import_request_fixed_witness:
  "session_trace MainGo account (one_message (Inr 200)) 2 =
     take 4 delivered_trace @ Import (importCall [0x48, 0x69, 0x21]) (Inr 200) #
     drop 5 delivered_trace \<and>
   LabelIds (importCall [0x48, 0x69, 0x21]) = [''INBOX'', ''UNREAD''] \<and>
   InternalDateSource (importCall [0x48, 0x69, 0x21]) = ''dateHeader'' \<and>
   ProcessForCalendar (importCall [0x48, 0x69, 0x21]) \<and>
   (\<exists>pre' m ms. take 4 delivered_trace =
        pre' @ [Fetch (SeqSetNum 1) entireMessage (Inr (m # ms))] \<and>
      Media (importCall [0x48, 0x69, 0x21]) = concat (BodySection m))"
proof -
  have h: "session_trace MainGo account (one_message (Inr 200)) 2 =
     take 4 delivered_trace @ Import (importCall [0x48, 0x69, 0x21]) (Inr 200) #
     drop 5 delivered_trace"
    by (simp add: delivered_run delivered_trace_def)
  from import_request_fixed [OF h] h show ?thesis by simp
qed

text \<open>
  C8, as amended. The update channel of a session has capacity zero and never holds an
  update. An update pushed while the session is not waiting is dropped, and the channel
  is as before; one pushed while it waits is handed over. A wait ends with the first
  update pushed during it, or with the timer when none is.
\<close>

theorem updates_never_pending:
  "mailboxUpdate (snd (doSession rv c e fuel)) = make_chan 0 \<and>
   buf (mailboxUpdate (snd (doSession rv c e fuel))) = [] \<and>
   deliver (make_chan 0) ps = make_chan 0 \<and>
   dataHandler_Mailbox False (make_chan 0) u = (Dropped, make_chan 0) \<and>
   dataHandler_Mailbox True (make_chan 0) u = (Delivered, make_chan 0) \<and>
   (session_trace rv c e fuel = pre @ Await d w # post \<longrightarrow>
      w = (case pushes e (length pre) of [] \<Rightarrow> None | p # _ \<Rightarrow> Some p))"
proof -
  have a: "mailboxUpdate (snd (doSession rv c e fuel)) = make_chan 0"
    by (rule session_channel)
  then have b: "buf (mailboxUpdate (snd (doSession rv c e fuel))) = []"
    by (simp add: make_chan_def)
  have c: "deliver (make_chan 0) ps = make_chan 0"
    by (rule deliver_unbuffered)
  have d: "dataHandler_Mailbox False (make_chan 0) u = (Dropped, make_chan 0)"
    "dataHandler_Mailbox True (make_chan 0) u = (Delivered, make_chan 0)"
    by (simp_all add: dataHandler_Mailbox_def make_chan_def)
  have e: "w = (case pushes e (length pre) of [] \<Rightarrow> None | p # _ \<Rightarrow> Some p)"
    if "session_trace rv c e fuel = pre @ Await d w # post"
    using session_justified [OF that] by simp
  from a b c d e show ?thesis by blast
qed

theorem updates_never_pending_witness:
  "session_trace MainGo account prompt_update 1 =
     [DialTLS ''imap.example.org:993'' None, Login ''alice'' ''secret'' None,
      Select ''INBOX'' (Inr \<lparr>NumMessages = 0\<rparr>), Idle None] @
     Await maxPollTime (Some (Some 7)) # [IdleClose None, IdleWait None] \<and>
   Some (Some 7) = (case pushes prompt_update 4 of [] \<Rightarrow> None | p # _ \<Rightarrow> Some p)"
proof -
  have h: "session_trace MainGo account prompt_update 1 =
     [DialTLS ''imap.example.org:993'' None, Login ''alice'' ''secret'' None,
      Select ''INBOX'' (Inr \<lparr>NumMessages = 0\<rparr>), Idle None] @
     Await maxPollTime (Some (Some 7)) # [IdleClose None, IdleWait None]"
    by (simp add: run_defs prompt_update_def)
  from updates_never_pending [of MainGo account prompt_update 1 "[]" None
      "[DialTLS ''imap.example.org:993'' None, Login ''alice'' ''secret'' None,
        Select ''INBOX'' (Inr \<lparr>NumMessages = 0\<rparr>), Idle None]"
      maxPollTime "Some (Some 7)" "[IdleClose None, IdleWait None]"] h
  show ?thesis by (auto simp: eval_nat_numeral)
qed

text \<open>
  C8 as stated has one slot that keeps an update until the next wait reads it. Here an
  update is pushed during the SELECT; the channel is empty afterwards, and the wait that
  follows ends by the timer.
\<close>

theorem update_before_wait_is_lost:
  "pushes late_update 2 = [Some 1] \<and>
   session_trace MainGo account late_update 1 =
     [DialTLS ''imap.example.org:993'' None,
      Login ''alice'' ''secret'' None,
      Select ''INBOX'' (Inr \<lparr>NumMessages = 0\<rparr>),
      Idle None,
      Await maxPollTime None,
      IdleClose None,
      IdleWait None] \<and>
   buf (mailboxUpdate (snd (doSession MainGo account late_update 1))) = []"
  by (simp add: run_defs late_update_def)

text \<open>
  C9. \<open>deleteMessage\<close> first issues the STORE that adds the deleted flag,
  silently, to the set holding exactly the given UID, and issues EXPUNGE only if the
  STORE succeeded; it returns the first error. In a session every STORE has this form
  and names the UID of the message fetched two calls before; a failed one is followed
  by the close of the connection only, and the session returns its error; a successful
  one is followed by EXPUNGE; and every EXPUNGE comes right after a successful STORE.
\<close>

theorem store_before_expunge:
  "fst (deleteMessage e s u) =
     (case store_r e (length (trace s)) of
        Some err \<Rightarrow> Some err
      | None \<Rightarrow> expunge_r e (Suc (length (trace s)))) \<and>
   trace (snd (deleteMessage e s u)) =
     trace s @
     Store (UIDSet [u])
       \<lparr>Op = StoreFlagsAdd, Silent = True, Flags = [CHR 0x5C # ''Deleted'']\<rparr>
       (store_r e (length (trace s))) #
     (case store_r e (length (trace s)) of
        Some err \<Rightarrow> []
      | None \<Rightarrow> [Expunge (expunge_r e (Suc (length (trace s))))]) \<and>
   (session_trace rv c e' fuel = pre @ x # post \<longrightarrow>
      (case x of
         Store ns fl r \<Rightarrow>
           fl = \<lparr>Op = StoreFlagsAdd, Silent = True, Flags = [CHR 0x5C # ''Deleted'']\<rparr> \<and>
           r = store_r e' (length pre) \<and>
           (\<exists>pre' m ms ir.
              pre = pre' @
                [Fetch (SeqSet [1]) [\<lparr>Specifier = [], Part = [], Peek = False\<rparr>] (Inr (m # ms)),
                 Import \<lparr>userId = ''me'', LabelIds = [''INBOX'', ''UNREAD''],
                         InternalDateSource = ''dateHeader'', NeverMarkSpam = False,
                         ProcessForCalendar = True, Deleted = False,
                         Media = concat (BodySection m),
                         ContentType = ''message/rfc822''\<rparr> ir] \<and>
              ns = UIDSet [UID m]) \<and>
           (case r of
              Some err \<Rightarrow> post = [Close] \<and> session_result rv c e' fuel = Some (Some err)
            | None \<Rightarrow> (\<exists>r2 post'. post = Expunge r2 # post'))
       | Expunge r \<Rightarrow>
           r = expunge_r e' (length pre) \<and>
           (\<exists>pre' w. pre = pre' @
              [Store (UIDSet [w])
                 \<lparr>Op = StoreFlagsAdd, Silent = True, Flags = [CHR 0x5C # ''Deleted'']\<rparr> None])
       | _ \<Rightarrow> True))"
proof -
  have a: "fst (deleteMessage e s u) =
     (case store_r e (length (trace s)) of
        Some err \<Rightarrow> Some err
      | None \<Rightarrow> expunge_r e (Suc (length (trace s))))"
    by (simp add: deleteMessage_def Let_def trace_issue split: option.splits)
  have b: "trace (snd (deleteMessage e s u)) =
     trace s @
     Store (UIDSet [u])
       \<lparr>Op = StoreFlagsAdd, Silent = True, Flags = [CHR 0x5C # ''Deleted'']\<rparr>
       (store_r e (length (trace s))) #
     (case store_r e (length (trace s)) of
        Some err \<Rightarrow> []
      | None \<Rightarrow> [Expunge (expunge_r e (Suc (length (trace s))))])"
    by (simp add: deleteMessage_def Let_def trace_issue UIDSetNum_def addDeleted_def
        FlagDeleted_def split: option.splits)
  have c: "case x of
         Store ns fl r \<Rightarrow>
           fl = \<lparr>Op = StoreFlagsAdd, Silent = True, Flags = [CHR 0x5C # ''Deleted'']\<rparr> \<and>
           r = store_r e' (length pre) \<and>
           (\<exists>pre' m ms ir.
              pre = pre' @
                [Fetch (SeqSet [1]) [\<lparr>Specifier = [], Part = [], Peek = False\<rparr>] (Inr (m # ms)),
                 Import \<lparr>userId = ''me'', LabelIds = [''INBOX'', ''UNREAD''],
                         InternalDateSource = ''dateHeader'', NeverMarkSpam = False,
                         ProcessForCalendar = True, Deleted = False,
                         Media = concat (BodySection m),
                         ContentType = ''message/rfc822''\<rparr> ir] \<and>
              ns = UIDSet [UID m]) \<and>
           (case r of
              Some err \<Rightarrow> post = [Close] \<and> session_result rv c e' fuel = Some (Some err)
            | None \<Rightarrow> (\<exists>r2 post'. post = Expunge r2 # post'))
       | Expunge r \<Rightarrow>
           r = expunge_r e' (length pre) \<and>
           (\<exists>pre' w. pre = pre' @
              [Store (UIDSet [w])
                 \<lparr>Op = StoreFlagsAdd, Silent = True, Flags = [CHR 0x5C # ''Deleted'']\<rparr> None])
       | _ \<Rightarrow> True"
    if t: "session_trace rv c e' fuel = pre @ x # post"
    using store_before_expunge_named [OF t]
    unfolding SeqSetNum_def entireMessage_def importCall_def UIDSetNum_def addDeleted_def
      FlagDeleted_def .
  from a b c show ?thesis by blast
qed

theorem store_before_expunge_witness:
  "session_trace MainGo account (one_message (Inr 200)) 2 =
     take 5 delivered_trace @
     Store (UIDSet [12])
       \<lparr>Op = StoreFlagsAdd, Silent = True, Flags = [CHR 0x5C # ''Deleted'']\<rparr> None #
     drop 6 delivered_trace \<and>
   (\<exists>pre' m ms ir.
      take 5 delivered_trace =
        pre' @
          [Fetch (SeqSet [1]) [\<lparr>Specifier = [], Part = [], Peek = False\<rparr>] (Inr (m # ms)),
           Import \<lparr>userId = ''me'', LabelIds = [''INBOX'', ''UNREAD''],
                   InternalDateSource = ''dateHeader'', NeverMarkSpam = False,
                   ProcessForCalendar = True, Deleted = False,
                   Media = concat (BodySection m),
                   ContentType = ''message/rfc822''\<rparr> ir] \<and>
      UIDSet [12] = UIDSet [UID m]) \<and>
   (\<exists>r2 post'. drop 6 delivered_trace = Expunge r2 # post') \<and>
   fst (deleteMessage calm \<lparr>trace = [], mailboxUpdate = make_chan 0\<rparr> 12) = None"
proof -
  have h: "session_trace MainGo account (one_message (Inr 200)) 2 =
     take 5 delivered_trace @
     Store (UIDSet [12])
       \<lparr>Op = StoreFlagsAdd, Silent = True, Flags = [CHR 0x5C # ''Deleted'']\<rparr> None #
     drop 6 delivered_trace"
    by (simp add: delivered_run delivered_trace_def UIDSetNum_def addDeleted_def FlagDeleted_def)
  have c: "store_r calm 0 = None" "expunge_r calm (Suc 0) = None"
    by (simp_all add: calm_def)
  from store_before_expunge [of calm "\<lparr>trace = [], mailboxUpdate = make_chan 0\<rparr>" 12
      MainGo account "one_message (Inr 200)" 2 "take 5 delivered_trace"
      "Store (UIDSet [12])
         \<lparr>Op = StoreFlagsAdd, Silent = True, Flags = [CHR 0x5C # ''Deleted'']\<rparr> None"
      "drop 6 delivered_trace"] h c
  show ?thesis by simp
qed

text \<open>
  C10. If \<open>doSession\<close> returns, it returns an error, never nil. Hence every sleep of the
  supervisor comes right after a session that returned an error.
\<close>

theorem doSession_no_successful_return:
  "(session_result rv c e fuel = Some r \<longrightarrow> (\<exists>err. r = Some err)) \<and>
   (supervise rv c envs fuel j k = pre @ Sleep d # post \<longrightarrow>
      (\<exists>pre' i err. pre = pre' @ [RunSession c (session_trace rv c (envs i) fuel)] \<and>
         session_result rv c (envs i) fuel = Some (Some err)))"
  using session_result_error [of rv c e fuel] sleep_after_session [of rv c envs fuel j k pre d post]
  by auto

theorem doSession_no_successful_return_witness:
  "session_result MainGo account unreachable 0 = Some (Some (External ''connection refused'')) \<and>
   supervise MainGo account (\<lambda>i. unreachable) 0 0 (Suc 0) =
     [RunSession account (session_trace MainGo account unreachable 0)] @ Sleep maxPollTime # [] \<and>
   (\<exists>err. Some (External ''connection refused'') = Some err) \<and>
   (\<exists>pre' i err.
      [RunSession account (session_trace MainGo account unreachable 0)] =
        pre' @ [RunSession account (session_trace MainGo account ((\<lambda>i. unreachable) i) 0)] \<and>
      session_result MainGo account ((\<lambda>i. unreachable) i) 0 = Some (Some err))"
proof -
  have h1: "session_result MainGo account unreachable 0 =
      Some (Some (External ''connection refused''))"
    by (simp add: run_defs)
  have h2: "supervise MainGo account (\<lambda>i. unreachable) 0 0 (Suc 0) =
     [RunSession account (session_trace MainGo account unreachable 0)] @ Sleep maxPollTime # []"
    by (simp add: run_defs)
  from doSession_no_successful_return [of MainGo account unreachable 0
      "Some (External ''connection refused'')" "\<lambda>i. unreachable" 0 "Suc 0"
      "[RunSession account (session_trace MainGo account unreachable 0)]" maxPollTime "[]"] h1 h2
  show ?thesis by blast
qed

section \<open>The transfer in main.go\<close>

text \<open>
  In main.go a STORE is issued only right after the import of the bytes of the message
  fetched just before has been answered with status 200, and it names the UID of that
  message.
\<close>

lemma mainGo_store_only_after_200:
  assumes "session_trace MainGo c e fuel = pre @ Store ns fl r # post"
  shows "\<exists>pre' m ms. pre = pre' @ [Fetch (SeqSetNum 1) entireMessage (Inr (m # ms)),
             Import (importCall (concat (BodySection m))) (Inr 200)] \<and>
           ns = UIDSetNum (UID m) \<and> fl = addDeleted"
proof -
  from session_justified [OF assms]
  obtain m ms ir where len: "2 \<le> length pre"
    and f: "last (butlast pre) = Fetch (SeqSetNum 1) entireMessage (Inr (m # ms))"
    and i: "last pre = Import (importCall (concat (BodySection m))) ir"
    and ok: "failure_of MainGo (last pre) = None"
    and ns: "ns = UIDSetNum (UID m)" "fl = addDeleted"
    by auto
  have ir: "ir = Inr 200"
    using ok i by (auto split: sum.splits if_splits)
  have "length (butlast pre) \<noteq> 0"
    using len by simp
  then have b: "butlast pre \<noteq> []"
    by (simp del: length_butlast)
  then have p: "pre \<noteq> []"
    by auto
  from p b have "pre = butlast (butlast pre) @ [last (butlast pre), last pre]"
    by (metis append.assoc append_Cons append_Nil append_butlast_last_id)
  then show ?thesis using f i ir ns by metis
qed

theorem mainGo_store_only_after_200_witness:
  "session_trace MainGo account (one_message (Inr 200)) 2 =
     take 5 delivered_trace @ Store (UIDSetNum 12) addDeleted None # drop 6 delivered_trace \<and>
   (\<exists>pre' m ms. take 5 delivered_trace =
        pre' @ [Fetch (SeqSetNum 1) entireMessage (Inr (m # ms)),
                Import (importCall (concat (BodySection m))) (Inr 200)] \<and>
      UIDSetNum 12 = UIDSetNum (UID m))"
proof -
  have h: "session_trace MainGo account (one_message (Inr 200)) 2 =
     take 5 delivered_trace @ Store (UIDSetNum 12) addDeleted None # drop 6 delivered_trace"
    by (simp add: delivered_run delivered_trace_def)
  from mainGo_store_only_after_200 [OF h] h show ?thesis by simp
qed

text \<open>
  In main.go an import that fails, by a transport error or by a status other than 200,
  is followed by the close of the connection only, and the session returns an error.
\<close>

lemma mainGo_failed_import_ends_session:
  assumes "session_trace MainGo c e fuel = pre @ Import call r # post" "r \<noteq> Inr 200"
  shows "post = [Close] \<and> (\<exists>err. session_result MainGo c e fuel = Some (Some err))"
proof -
  obtain err where "failure_of MainGo (Import call r) = Some err"
    using assms(2) by (cases r) auto
  from failure_ends_session [OF assms(1) this] show ?thesis by simp
qed

theorem mainGo_failed_import_ends_session_witness:
  "session_trace MainGo account (one_message (Inr 500)) 2 =
     [DialTLS ''imap.example.org:993'' None,
      Login ''alice'' ''secret'' None,
      Select ''INBOX'' (Inr \<lparr>NumMessages = 1\<rparr>),
      Fetch (SeqSetNum 1) entireMessage (Inr [msg12])] @
     Import (importCall [0x48, 0x69, 0x21]) (Inr 500) # [Close] \<and>
   (\<exists>err. session_result MainGo account (one_message (Inr 500)) 2 = Some (Some err))"
proof -
  have h: "session_trace MainGo account (one_message (Inr 500)) 2 =
     [DialTLS ''imap.example.org:993'' None,
      Login ''alice'' ''secret'' None,
      Select ''INBOX'' (Inr \<lparr>NumMessages = 1\<rparr>),
      Fetch (SeqSetNum 1) entireMessage (Inr [msg12])] @
     Import (importCall [0x48, 0x69, 0x21]) (Inr 500) # [Close]"
    using mainGo_rejected_import_run by simp
  have n: "(Inr 500 :: error + int) \<noteq> Inr 200"
    by simp
  from mainGo_failed_import_ends_session [OF h n] h show ?thesis by simp
qed

text \<open>
  In main.go an import answered with status 200 is followed by the STORE for the UID of
  the message fetched just before.
\<close>

lemma mainGo_accepted_import_is_deleted:
  assumes "session_trace MainGo c e fuel =
      pre @ Fetch ns fo (Inr (m # ms)) # Import call (Inr 200) # post"
  shows "\<exists>r post'. post = Store (UIDSetNum (UID m)) addDeleted r # post'"
proof -
  have t: "session_trace MainGo c e fuel =
      (pre @ [Fetch ns fo (Inr (m # ms))]) @ Import call (Inr 200) # post"
    using assms by simp
  from no_failure_continues [OF t]
  obtain y post' where p: "post = y # post'"
    and j: "justified MainGo c e ((pre @ [Fetch ns fo (Inr (m # ms))]) @ [Import call (Inr 200)]) y"
    by auto
  have "\<exists>r. y = Store (UIDSetNum (UID m)) addDeleted r"
    using j by (cases y) (auto simp: butlast_append)
  with p show ?thesis by auto
qed

theorem mainGo_accepted_import_is_deleted_witness:
  "session_trace MainGo account (one_message (Inr 200)) 2 =
     take 3 delivered_trace @ Fetch (SeqSetNum 1) entireMessage (Inr (msg12 # [])) #
     Import (importCall [0x48, 0x69, 0x21]) (Inr 200) # drop 5 delivered_trace \<and>
   (\<exists>r post'. drop 5 delivered_trace = Store (UIDSetNum (UID msg12)) addDeleted r # post')"
proof -
  have h: "session_trace MainGo account (one_message (Inr 200)) 2 =
     take 3 delivered_trace @ Fetch (SeqSetNum 1) entireMessage (Inr (msg12 # [])) #
     Import (importCall [0x48, 0x69, 0x21]) (Inr 200) # drop 5 delivered_trace"
    by (simp add: delivered_run delivered_trace_def)
  from mainGo_accepted_import_is_deleted [OF h] h show ?thesis by simp
qed

end
